theory Spec2Isabelle
  imports Main "HOL-Library.Word" "HOL-Library.Signed_Division"
begin

unbundle bit_operations_syntax

section \<open>The cache reader of libbcc (lib/bcc/CacheReader.cpp)\<close>

text \<open>
  The reader opens a cache file, validates it step by step and hands back a
  \<open>ScriptCached\<close> object, or a null pointer. The embedding keeps the C++ structure:
  every member function of \<open>CacheReader\<close> is a function on the reader's state, and
  returns \<open>None\<close> where the C++ execution has undefined behaviour (a null pointer is
  dereferenced, a buffer or vector is read out of range, a signed addition overflows),
  \<open>Some (b, r')\<close> where it returns the boolean \<open>b\<close> and leaves the reader in \<open>r'\<close>.
\<close>

subsection \<open>Bytes, machine integers\<close>

type_synonym byte = "8 word"
type_synonym bytes = "byte list"

text \<open>The value of an integer converted to a signed type of the given number of bits.\<close>

definition to_signed :: "nat \<Rightarrow> int \<Rightarrow> int" where
  "to_signed bits x =
     (let m = x mod 2 ^ bits in if m < 2 ^ (bits - 1) then m else m - 2 ^ bits)"

definition signed_ok :: "nat \<Rightarrow> int \<Rightarrow> bool" where
  "signed_ok bits x = (- (2 ^ (bits - 1)) \<le> x \<and> x < 2 ^ (bits - 1))"

text \<open>An element of a vector or of a buffer; \<open>None\<close> out of range.\<close>

definition vec_at :: "'a list \<Rightarrow> nat \<Rightarrow> 'a option" where
  "vec_at xs i = (if i < length xs then Some (xs ! i) else None)"

definition byte_at :: "bytes \<Rightarrow> int \<Rightarrow> byte option" where
  "byte_at buf p = (if 0 \<le> p \<and> nat p < length buf then Some (buf ! nat p) else None)"

text \<open>
  The C string that starts at offset \<open>p\<close> of a buffer: the bytes before the first
  \<open>0\<close>. With no terminator in the buffer the read runs past its end.
\<close>

definition c_str :: "bytes \<Rightarrow> int \<Rightarrow> bytes option" where
  "c_str buf p =
     (if 0 \<le> p \<and> 0 \<in> set (drop (nat p) buf)
      then Some (takeWhile (\<lambda>b. b \<noteq> 0) (drop (nat p) buf)) else None)"

text \<open>
  \<open>memcmp(a, b, n) == 0\<close>. The reader compares arrays that hold \<open>n\<close> bytes: the
  4-byte magic and version, and 20-byte SHA-1 fingerprints.
\<close>

definition memcmp :: "bytes \<Rightarrow> bytes \<Rightarrow> nat \<Rightarrow> bool" where
  "memcmp a b n = (take n a = take n b)"

subsection \<open>The structures of bcc_cache.h\<close>

text \<open>
  The header file that declares the on-disk structures is not part of the sources at
  hand, so the records below hold the fields that CacheReader.cpp reads, typed as it
  uses them: an offset is an \<open>off_t\<close> (signed), a size or an index a \<open>size_t\<close>.
\<close>

record OBCC_Header =
  magic :: bytes
  version :: bytes
  endianness :: byte
  sizeof_off_t :: nat
  sizeof_size_t :: nat
  sizeof_ptr_t :: nat
  str_pool_offset :: int
  str_pool_size :: nat
  depend_tab_offset :: int
  depend_tab_size :: nat
  reloc_tab_offset :: int
  reloc_tab_size :: nat
  export_var_list_offset :: int
  export_var_list_size :: nat
  export_func_list_offset :: int
  export_func_list_size :: nat
  pragma_list_offset :: int
  pragma_list_size :: nat
  func_table_offset :: int
  func_table_size :: nat
  context_offset :: int
  context_cached_addr :: nat
  context_parity_checksum :: "32 word"

record OBCC_String =
  str_length :: nat
  str_offset :: int

record OBCC_Dependency =
  res_name_strp_index :: nat
  res_type :: "32 word"
  sha1 :: bytes

record OBCC_Pragma =
  key_strp_index :: nat
  value_strp_index :: nat

record OBCC_FuncInfo =
  name_strp_index :: nat
  cached_addr :: nat
  func_size :: nat

subsection \<open>The platform\<close>

text \<open>
  What the compiler and the missing headers fix: the byte order, the widths of the
  integer types (in bytes), the page size, the constants of bcc_cache.h, and the layout
  of its structures, given as the views that a \<open>reinterpret_cast\<close> of a buffer yields.
  \<open>as_count\<close> is the leading \<open>count\<close> member of a section, \<open>as_string buf i\<close> the
  member \<open>list[i]\<close> of a string pool, and so on; a view is \<open>None\<close> where the member does
  not lie inside the buffer.
\<close>

record platform =
  little_endian :: bool
  host_int :: nat
  host_off_t :: nat
  host_size_t :: nat
  host_ptr :: nat
  host_pagesize :: nat
  sizeof_OBCC_Header :: nat
  BCC_CONTEXT_SIZE :: nat
  OBCC_MAGIC :: bytes
  OBCC_VERSION :: bytes
  as_header :: "bytes \<Rightarrow> OBCC_Header"
  as_count :: "bytes \<Rightarrow> nat option"
  as_string :: "bytes \<Rightarrow> nat \<Rightarrow> OBCC_String option"
  as_dependency :: "bytes \<Rightarrow> nat \<Rightarrow> OBCC_Dependency option"
  as_pragma :: "bytes \<Rightarrow> nat \<Rightarrow> OBCC_Pragma option"
  as_func :: "bytes \<Rightarrow> nat \<Rightarrow> OBCC_FuncInfo option"

definition to_off_t :: "platform \<Rightarrow> int \<Rightarrow> int" where
  "to_off_t P x = to_signed (8 * host_off_t P) x"

definition to_ssize_t :: "platform \<Rightarrow> int \<Rightarrow> int" where
  "to_ssize_t P x = to_signed (8 * host_size_t P) x"

definition off_t_ok :: "platform \<Rightarrow> int \<Rightarrow> bool" where
  "off_t_ok P x = signed_ok (8 * host_off_t P) x"

text \<open>The object representation of a \<open>uint32_t\<close>, and the value of four bytes read as one.\<close>

definition store32 :: "platform \<Rightarrow> 32 word \<Rightarrow> bytes" where
  "store32 P w =
     (let le = [ucast w, ucast (drop_bit 8 w), ucast (drop_bit 16 w), ucast (drop_bit 24 w)]
      in if little_endian P then le else rev le)"

definition word32 :: "byte \<Rightarrow> byte \<Rightarrow> byte \<Rightarrow> byte \<Rightarrow> 32 word" where
  "word32 b0 b1 b2 b3 =
     ucast b0 OR push_bit 8 (ucast b1) OR push_bit 16 (ucast b2) OR push_bit 24 (ucast b3)"

definition load32 :: "platform \<Rightarrow> bytes \<Rightarrow> nat \<Rightarrow> 32 word option" where
  "load32 P buf i =
     (if 4 * i + 4 \<le> length buf
      then Some (if little_endian P
                 then word32 (buf ! (4 * i)) (buf ! (4 * i + 1)) (buf ! (4 * i + 2)) (buf ! (4 * i + 3))
                 else word32 (buf ! (4 * i + 3)) (buf ! (4 * i + 2)) (buf ! (4 * i + 1)) (buf ! (4 * i)))
      else None)"

subsection \<open>The file handle\<close>

text \<open>
  Modelled from the spec: FileHandle.h and its implementation are not part of the
  sources at hand. The spec calls the file accessor a collaborator that supplies seek and
  read primitives and a file size; the model is a regular file read through a POSIX
  descriptor: \<open>seek\<close> to a negative offset fails with \<open>-1\<close>, \<open>read\<close> delivers the bytes
  that the file holds from the current position on, at most as many as asked for, and
  never a byte from beyond the end of the file.
\<close>

record FileHandle =
  getFD :: int
  contents :: bytes
  position :: nat

definition FileHandle_seek :: "FileHandle \<Rightarrow> int \<Rightarrow> int \<times> FileHandle" where
  "FileHandle_seek f off =
     (if off < 0 then (- 1, f) else (off, f\<lparr>position := nat off\<rparr>))"

definition FileHandle_read :: "FileHandle \<Rightarrow> nat \<Rightarrow> bytes \<times> FileHandle" where
  "FileHandle_read f n =
     (let got = take n (drop (position f) (contents f))
      in (got, f\<lparr>position := position f + length got\<rparr>))"

subsection \<open>The result object and the reader\<close>

text \<open>
  A pointer into the raw string pool is the offset from the start of that buffer
  (\<open>str_base\<close>). A buffer is the list of the bytes that were read into it. The function
  table is the \<open>std::map\<close> from names to (address, size).
\<close>

record ScriptCached =
  mpStringPoolRaw :: "bytes option"
  mStringPool :: "int list"
  mpExportVars :: "bytes option"
  mpExportFuncs :: "bytes option"
  mPragmas :: "(int \<times> int) list"
  mFunctions :: "bytes \<rightharpoonup> (nat \<times> nat)"
  mContext :: "bytes option"

definition new_ScriptCached :: ScriptCached where
  "new_ScriptCached =
     \<lparr>mpStringPoolRaw = None, mStringPool = [], mpExportVars = None, mpExportFuncs = None,
      mPragmas = [], mFunctions = Map.empty, mContext = None\<rparr>"

text \<open>
  The calls that leave the reader: they are recorded, in order, in the field \<open>trace\<close>.
  \<open>Read p n\<close> is a read of \<open>n\<close> bytes at file position \<open>p\<close>.
\<close>

datatype event =
    New_ScriptCached
  | Fstat
  | Malloc nat
  | Seek int
  | Read nat nat
  | AllocateContext nat int

text \<open>
  The members of \<open>CacheReader\<close>. \<open>mDependencies\<close> is a \<open>std::map\<close> keyed by the
  dependency's name: the list holds its entries as an iteration from \<open>begin()\<close> visits
  them, by ascending name. The last three fields are the environment: \<open>heap\<close> says
  which of the coming allocations succeed (all of them once the list is used up),
  \<open>free_slots\<close> the addresses at which a context can be placed.
\<close>

record CacheReader =
  mFile :: "FileHandle option"
  mFileSize :: int
  mpHeader :: "bytes option"
  mpCachedDependTable :: "bytes option"
  mpPragmaList :: "bytes option"
  mpFuncTable :: "bytes option"
  mpResult :: "ScriptCached option"
  mDependencies :: "(bytes \<times> (32 word \<times> bytes)) list"
  heap :: "bool list"
  free_slots :: "nat list"
  trace :: "event list"

definition emit :: "event \<Rightarrow> CacheReader \<Rightarrow> CacheReader" where
  "emit e r = r\<lparr>trace := trace r @ [e]\<rparr>"

definition alloc :: "event \<Rightarrow> CacheReader \<Rightarrow> bool \<times> CacheReader" where
  "alloc e r =
     (case heap r of
        [] \<Rightarrow> (True, emit e r)
      | ok # rest \<Rightarrow> (ok, emit e (r\<lparr>heap := rest\<rparr>)))"

type_synonym step = "CacheReader \<Rightarrow> (bool \<times> CacheReader) option"

subsection \<open>File size and header\<close>

definition checkFileSize :: "platform \<Rightarrow> step" where
  "checkFileSize P r =
     (case mFile r of
        None \<Rightarrow> None
      | Some f \<Rightarrow>
          if getFD f < 0 then Some (False, emit Fstat r)
          else
            let r1 = (emit Fstat r)\<lparr>mFileSize := int (length (contents f))\<rparr> in
            if mFileSize r1 < to_off_t P (int (sizeof_OBCC_Header P)) \<or>
               mFileSize r1 < to_off_t P (int (BCC_CONTEXT_SIZE P))
            then Some (False, r1)
            else Some (True, r1))"

definition readHeader :: "platform \<Rightarrow> step" where
  "readHeader P r =
     (case mFile r of
        None \<Rightarrow> None
      | Some f \<Rightarrow>
          (case FileHandle_seek f 0 of
             (pos, f1) \<Rightarrow>
               let r1 = emit (Seek 0) (r\<lparr>mFile := Some f1\<rparr>) in
               if pos \<noteq> 0 then Some (False, r1)
               else
                 (case alloc (Malloc (sizeof_OBCC_Header P)) r1 of
                    (ok, r2) \<Rightarrow>
                      if \<not> ok then Some (False, r2\<lparr>mpHeader := None\<rparr>)
                      else
                        (case FileHandle_read f1 (sizeof_OBCC_Header P) of
                           (got, f2) \<Rightarrow>
                             let r3 = emit (Read (position f1) (sizeof_OBCC_Header P))
                                        (r2\<lparr>mpHeader := Some got, mFile := Some f2\<rparr>) in
                             if int (length got) \<noteq> to_ssize_t P (int (sizeof_OBCC_Header P))
                             then Some (False, r3)
                             else Some (True, r3)))))"

definition checkHeader :: "platform \<Rightarrow> step" where
  "checkHeader P r =
     (case mpHeader r of
        None \<Rightarrow> None
      | Some hb \<Rightarrow>
          if \<not> memcmp (magic (as_header P hb)) (OBCC_MAGIC P) 4 then Some (False, r)
          else if \<not> memcmp (version (as_header P hb)) (OBCC_VERSION P) 4 then Some (False, r)
          else Some (True, r))"

text \<open>
  \<open>101\<close> and \<open>69\<close> are the characters \<open>'e'\<close> and \<open>'E'\<close>. The header's width fields are
  compared after their conversion to \<open>unsigned int\<close>.
\<close>

definition checkMachineIntType :: "platform \<Rightarrow> step" where
  "checkMachineIntType P r =
     (case mpHeader r of
        None \<Rightarrow> None
      | Some hb \<Rightarrow>
          let h = as_header P hb;
              number = (1 :: 32 word);
              isLittleEndian = (hd (store32 P number) = 1)
          in
            if (isLittleEndian \<and> endianness h \<noteq> 101) \<or>
               (\<not> isLittleEndian \<and> endianness h \<noteq> 69)
            then Some (False, r)
            else if sizeof_off_t h \<noteq> host_off_t P \<or>
                    sizeof_size_t h \<noteq> host_size_t P \<or>
                    sizeof_ptr_t h \<noteq> host_ptr P
            then Some (False, r)
            else Some (True, r))"

subsection \<open>Section offsets and sizes\<close>

text \<open>
  One instance of the macro \<open>CHECK_SECTION_OFFSET\<close>: \<open>Some False\<close> is its
  \<open>return false\<close>, \<open>Some True\<close> falls through to the next statement. The sum
  \<open>offset + size\<close> is an addition of two \<open>off_t\<close>, undefined when it overflows; it is
  evaluated only when the first disjunct is false. The remainder is zero exactly when
  the offset is a multiple of \<open>sizeof(int)\<close>, whichever of the two operand types the
  usual arithmetic conversions choose.
\<close>

definition CHECK_SECTION_OFFSET :: "platform \<Rightarrow> int \<Rightarrow> int \<Rightarrow> nat \<Rightarrow> bool option" where
  "CHECK_SECTION_OFFSET P fileSize offset sz =
     (let size = to_off_t P (int sz) in
      if fileSize < offset then Some False
      else if \<not> off_t_ok P (offset + size) then None
      else if fileSize < offset + size then Some False
      else if offset smod int (host_int P) \<noteq> 0 then Some False
      else if size < to_off_t P (int (host_size_t P)) then Some False
      else Some True)"

definition and_then :: "bool option \<Rightarrow> bool option \<Rightarrow> bool option" where
  "and_then c rest =
     (case c of None \<Rightarrow> None | Some ok \<Rightarrow> if ok then rest else Some False)"

definition check_context_section :: "platform \<Rightarrow> int \<Rightarrow> OBCC_Header \<Rightarrow> bool option" where
  "check_context_section P fileSize h =
     (if fileSize < context_offset h then Some False
      else if \<not> off_t_ok P (context_offset h + int (BCC_CONTEXT_SIZE P)) then None
      else if fileSize < context_offset h + int (BCC_CONTEXT_SIZE P) then Some False
      else if host_pagesize P = 0 then None
      else if context_offset h smod int (host_pagesize P) \<noteq> 0 then Some False
      else if context_cached_addr h mod host_pagesize P \<noteq> 0 then Some False
      else Some True)"

definition checkSectionOffsetAndSize :: "platform \<Rightarrow> step" where
  "checkSectionOffsetAndSize P r =
     (case mpHeader r of
        None \<Rightarrow> None
      | Some hb \<Rightarrow>
          let h = as_header P hb; fs = mFileSize r in
          map_option (\<lambda>ok. (ok, r))
            (and_then (CHECK_SECTION_OFFSET P fs (str_pool_offset h) (str_pool_size h))
            (and_then (CHECK_SECTION_OFFSET P fs (depend_tab_offset h) (depend_tab_size h))
            (and_then (CHECK_SECTION_OFFSET P fs (reloc_tab_offset h) (reloc_tab_size h))
            (and_then (CHECK_SECTION_OFFSET P fs (export_var_list_offset h) (export_var_list_size h))
            (and_then (CHECK_SECTION_OFFSET P fs (export_func_list_offset h) (export_func_list_size h))
            (and_then (CHECK_SECTION_OFFSET P fs (pragma_list_offset h) (pragma_list_size h))
            (check_context_section P fs h))))))))"

subsection \<open>Reading a section\<close>

text \<open>
  The macro \<open>CACHE_READER_READ_SECTION\<close>, with the section's offset and size and the
  assignment to its holder as arguments. The result \<open>Some (None, r')\<close> is its
  \<open>return false\<close>; \<open>Some (Some raw, r')\<close> continues after the macro with the buffer
  \<open>raw\<close>. The holder points to the buffer from the allocation on, so it sees the bytes
  that the read delivers.
\<close>

definition CACHE_READER_READ_SECTION ::
  "platform \<Rightarrow> (bytes \<Rightarrow> CacheReader \<Rightarrow> CacheReader option) \<Rightarrow> int \<Rightarrow> nat \<Rightarrow>
   CacheReader \<Rightarrow> (bytes option \<times> CacheReader) option" where
  "CACHE_READER_READ_SECTION P hold offset sz r =
     (case alloc (Malloc sz) r of
        (ok, r1) \<Rightarrow>
          if \<not> ok then Some (None, r1)
          else
            (case hold [] r1 of
               None \<Rightarrow> None
             | Some r2 \<Rightarrow>
                 (case mFile r2 of
                    None \<Rightarrow> None
                  | Some f \<Rightarrow>
                      (case FileHandle_seek f offset of
                         (pos, f1) \<Rightarrow>
                           let r3 = emit (Seek offset) (r2\<lparr>mFile := Some f1\<rparr>) in
                           if pos = - 1 then Some (None, r3)
                           else
                             (case FileHandle_read f1 sz of
                                (got, f2) \<Rightarrow>
                                  (case hold got (emit (Read (position f1) sz)
                                                   (r3\<lparr>mFile := Some f2\<rparr>)) of
                                     None \<Rightarrow> None
                                   | Some r4 \<Rightarrow>
                                       if int (length got) \<noteq> to_ssize_t P (int sz)
                                       then Some (None, r4)
                                       else Some (Some got, r4)))))))"

text \<open>The holders: members of the reader, or of the result object behind \<open>mpResult\<close>.\<close>

definition in_result :: "(ScriptCached \<Rightarrow> ScriptCached) \<Rightarrow> CacheReader \<Rightarrow> CacheReader option" where
  "in_result upd r =
     (case mpResult r of
        None \<Rightarrow> None
      | Some sc \<Rightarrow> Some (r\<lparr>mpResult := Some (upd sc)\<rparr>))"

definition hold_str_pool :: "bytes \<Rightarrow> CacheReader \<Rightarrow> CacheReader option" where
  "hold_str_pool raw = in_result (\<lambda>sc. sc\<lparr>mpStringPoolRaw := Some raw\<rparr>)"

definition hold_depend_tab :: "bytes \<Rightarrow> CacheReader \<Rightarrow> CacheReader option" where
  "hold_depend_tab raw r = Some (r\<lparr>mpCachedDependTable := Some raw\<rparr>)"

definition hold_export_var_list :: "bytes \<Rightarrow> CacheReader \<Rightarrow> CacheReader option" where
  "hold_export_var_list raw = in_result (\<lambda>sc. sc\<lparr>mpExportVars := Some raw\<rparr>)"

definition hold_export_func_list :: "bytes \<Rightarrow> CacheReader \<Rightarrow> CacheReader option" where
  "hold_export_func_list raw = in_result (\<lambda>sc. sc\<lparr>mpExportFuncs := Some raw\<rparr>)"

definition hold_pragma_list :: "bytes \<Rightarrow> CacheReader \<Rightarrow> CacheReader option" where
  "hold_pragma_list raw r = Some (r\<lparr>mpPragmaList := Some raw\<rparr>)"

definition hold_func_table :: "bytes \<Rightarrow> CacheReader \<Rightarrow> CacheReader option" where
  "hold_func_table raw r = Some (r\<lparr>mpFuncTable := Some raw\<rparr>)"

subsection \<open>The string pool\<close>

text \<open>
  The loops run while \<open>i < count\<close>, where \<open>count\<close> is read from the raw section, which
  no iteration changes: it is the argument \<open>n\<close>.
\<close>

function readStringPool_loop ::
  "platform \<Rightarrow> bytes \<Rightarrow> nat \<Rightarrow> nat \<Rightarrow> int list \<Rightarrow> int list option" where
  "readStringPool_loop P raw n i pool =
     (if i < n then
        (case as_string P raw i of
           None \<Rightarrow> None
         | Some s \<Rightarrow> readStringPool_loop P raw n (Suc i) (pool @ [str_offset s]))
      else Some pool)"
  by pat_completeness auto
termination
  by (relation "measure (\<lambda>(P, raw, n, i, pool). n - i)") auto

definition readStringPool :: "platform \<Rightarrow> step" where
  "readStringPool P r =
     (case mpHeader r of
        None \<Rightarrow> None
      | Some hb \<Rightarrow>
          (case CACHE_READER_READ_SECTION P hold_str_pool
                  (str_pool_offset (as_header P hb)) (str_pool_size (as_header P hb)) r of
             None \<Rightarrow> None
           | Some (None, r1) \<Rightarrow> Some (False, r1)
           | Some (Some str_pool_raw, r1) \<Rightarrow>
               (case mpResult r1 of
                  None \<Rightarrow> None
                | Some sc \<Rightarrow>
                    (case as_count P str_pool_raw of
                       None \<Rightarrow> None
                     | Some n \<Rightarrow>
                         (case readStringPool_loop P str_pool_raw n 0 (mStringPool sc) of
                            None \<Rightarrow> None
                          | Some pool \<Rightarrow>
                              Some (True, r1\<lparr>mpResult := Some (sc\<lparr>mStringPool := pool\<rparr>)\<rparr>))))))"

text \<open>
  The scan for the terminators: \<open>Unterminated i\<close> is the index that the error message
  names before \<open>return false\<close>.
\<close>

datatype scan = Terminated | Unterminated nat

function checkStringPool_loop ::
  "platform \<Rightarrow> bytes \<Rightarrow> int list \<Rightarrow> nat \<Rightarrow> nat \<Rightarrow> scan option" where
  "checkStringPool_loop P poolR pool n i =
     (if i < n then
        (case vec_at pool i of
           None \<Rightarrow> None
         | Some str \<Rightarrow>
             (case as_string P poolR i of
                None \<Rightarrow> None
              | Some s \<Rightarrow>
                  (case byte_at poolR (str + int (str_length s)) of
                     None \<Rightarrow> None
                   | Some c \<Rightarrow>
                       if c \<noteq> 0 then Some (Unterminated i)
                       else checkStringPool_loop P poolR pool n (Suc i))))
      else Some Terminated)"
  by pat_completeness auto
termination
  by (relation "measure (\<lambda>(P, poolR, pool, n, i). n - i)") auto

definition checkStringPool_scan :: "platform \<Rightarrow> CacheReader \<Rightarrow> scan option" where
  "checkStringPool_scan P r =
     (case mpResult r of
        None \<Rightarrow> None
      | Some sc \<Rightarrow>
          (case mpStringPoolRaw sc of
             None \<Rightarrow> None
           | Some poolR \<Rightarrow>
               (case as_count P poolR of
                  None \<Rightarrow> None
                | Some n \<Rightarrow> checkStringPool_loop P poolR (mStringPool sc) n 0)))"

definition checkStringPool :: "platform \<Rightarrow> step" where
  "checkStringPool P r = map_option (\<lambda>s. (s = Terminated, r)) (checkStringPool_scan P r)"

subsection \<open>The dependency table\<close>

definition readDependencyTable :: "platform \<Rightarrow> step" where
  "readDependencyTable P r =
     (case mpHeader r of
        None \<Rightarrow> None
      | Some hb \<Rightarrow>
          (case CACHE_READER_READ_SECTION P hold_depend_tab
                  (depend_tab_offset (as_header P hb)) (depend_tab_size (as_header P hb)) r of
             None \<Rightarrow> None
           | Some (None, r1) \<Rightarrow> Some (False, r1)
           | Some (Some depend_tab_raw, r1) \<Rightarrow> Some (True, r1)))"

text \<open>
  The iterator \<open>dep\<close> is the list of the entries not yet visited. The cached name is the
  C string behind the pool's pointer, compared with the \<open>std::string\<close> of the expected
  name; the fingerprints are compared over 20 bytes.
\<close>

function checkDependency_loop ::
  "platform \<Rightarrow> bytes \<Rightarrow> bytes \<Rightarrow> int list \<Rightarrow> nat \<Rightarrow> nat \<Rightarrow>
   (bytes \<times> (32 word \<times> bytes)) list \<Rightarrow> bool option" where
  "checkDependency_loop P tab raw strPool n i dep =
     (if i < n then
        (case dep of
           [] \<Rightarrow> None
         | (depName, (depType, depSHA1)) # dep' \<Rightarrow>
             (case as_dependency P tab i of
                None \<Rightarrow> None
              | Some depCached \<Rightarrow>
                  (case vec_at strPool (res_name_strp_index depCached) of
                     None \<Rightarrow> None
                   | Some p \<Rightarrow>
                       (case c_str raw p of
                          None \<Rightarrow> None
                        | Some depCachedName \<Rightarrow>
                            if depName \<noteq> depCachedName then Some False
                            else if \<not> memcmp depSHA1 (sha1 depCached) 20 then Some False
                            else if depType \<noteq> res_type depCached then Some False
                            else checkDependency_loop P tab raw strPool n (Suc i) dep'))))
      else Some True)"
  by pat_completeness auto
termination
  by (relation "measure (\<lambda>(P, tab, raw, strPool, n, i, dep). n - i)") auto

text \<open>
  The pool's pointers point into the buffer behind \<open>mpStringPoolRaw\<close>; with no such
  buffer they point nowhere, and an empty list stands for it.
\<close>

definition pool_buffer :: "ScriptCached \<Rightarrow> bytes" where
  "pool_buffer sc = (case mpStringPoolRaw sc of None \<Rightarrow> [] | Some raw \<Rightarrow> raw)"

definition checkDependency :: "platform \<Rightarrow> step" where
  "checkDependency P r =
     (case mpCachedDependTable r of
        None \<Rightarrow> None
      | Some tab \<Rightarrow>
          (case as_count P tab of
             None \<Rightarrow> None
           | Some n \<Rightarrow>
               if length (mDependencies r) \<noteq> n then Some (False, r)
               else
                 (case mpResult r of
                    None \<Rightarrow> None
                  | Some sc \<Rightarrow>
                      map_option (\<lambda>ok. (ok, r))
                        (checkDependency_loop P tab (pool_buffer sc) (mStringPool sc) n 0
                           (mDependencies r)))))"

subsection \<open>Export lists, pragmas, function table\<close>

definition readExportVarList :: "platform \<Rightarrow> step" where
  "readExportVarList P r =
     (case mpHeader r of
        None \<Rightarrow> None
      | Some hb \<Rightarrow>
          (case CACHE_READER_READ_SECTION P hold_export_var_list
                  (export_var_list_offset (as_header P hb))
                  (export_var_list_size (as_header P hb)) r of
             None \<Rightarrow> None
           | Some (None, r1) \<Rightarrow> Some (False, r1)
           | Some (Some export_var_list_raw, r1) \<Rightarrow> Some (True, r1)))"

definition readExportFuncList :: "platform \<Rightarrow> step" where
  "readExportFuncList P r =
     (case mpHeader r of
        None \<Rightarrow> None
      | Some hb \<Rightarrow>
          (case CACHE_READER_READ_SECTION P hold_export_func_list
                  (export_func_list_offset (as_header P hb))
                  (export_func_list_size (as_header P hb)) r of
             None \<Rightarrow> None
           | Some (None, r1) \<Rightarrow> Some (False, r1)
           | Some (Some export_func_list_raw, r1) \<Rightarrow> Some (True, r1)))"

function readPragmaList_loop ::
  "platform \<Rightarrow> bytes \<Rightarrow> int list \<Rightarrow> nat \<Rightarrow> nat \<Rightarrow> (int \<times> int) list \<Rightarrow>
   (int \<times> int) list option" where
  "readPragmaList_loop P raw strPool n i pragmas =
     (if i < n then
        (case as_pragma P raw i of
           None \<Rightarrow> None
         | Some pragma \<Rightarrow>
             (case vec_at strPool (key_strp_index pragma) of
                None \<Rightarrow> None
              | Some k \<Rightarrow>
                  (case vec_at strPool (value_strp_index pragma) of
                     None \<Rightarrow> None
                   | Some v \<Rightarrow>
                       readPragmaList_loop P raw strPool n (Suc i) (pragmas @ [(k, v)]))))
      else Some pragmas)"
  by pat_completeness auto
termination
  by (relation "measure (\<lambda>(P, raw, strPool, n, i, pragmas). n - i)") auto

definition readPragmaList :: "platform \<Rightarrow> step" where
  "readPragmaList P r =
     (case mpHeader r of
        None \<Rightarrow> None
      | Some hb \<Rightarrow>
          (case CACHE_READER_READ_SECTION P hold_pragma_list
                  (pragma_list_offset (as_header P hb)) (pragma_list_size (as_header P hb)) r of
             None \<Rightarrow> None
           | Some (None, r1) \<Rightarrow> Some (False, r1)
           | Some (Some pragma_list_raw, r1) \<Rightarrow>
               (case mpResult r1 of
                  None \<Rightarrow> None
                | Some sc \<Rightarrow>
                    (case as_count P pragma_list_raw of
                       None \<Rightarrow> None
                     | Some n \<Rightarrow>
                         (case readPragmaList_loop P pragma_list_raw (mStringPool sc) n 0
                                 (mPragmas sc) of
                            None \<Rightarrow> None
                          | Some pragmas \<Rightarrow>
                              Some (True, r1\<lparr>mpResult := Some (sc\<lparr>mPragmas := pragmas\<rparr>)\<rparr>))))))"

text \<open>\<open>std::map::insert\<close>: a key that the map already holds keeps its value.\<close>

definition map_insert :: "('k \<rightharpoonup> 'v) \<Rightarrow> 'k \<Rightarrow> 'v \<Rightarrow> ('k \<rightharpoonup> 'v)" where
  "map_insert m k v = (case m k of None \<Rightarrow> m(k \<mapsto> v) | Some old \<Rightarrow> m)"

function readFuncTable_loop ::
  "platform \<Rightarrow> bytes \<Rightarrow> bytes \<Rightarrow> int list \<Rightarrow> nat \<Rightarrow> nat \<Rightarrow> (bytes \<rightharpoonup> (nat \<times> nat)) \<Rightarrow>
   (bytes \<rightharpoonup> (nat \<times> nat)) option" where
  "readFuncTable_loop P raw pool_raw strPool n i table =
     (if i < n then
        (case as_func P raw i of
           None \<Rightarrow> None
         | Some func \<Rightarrow>
             (case vec_at strPool (name_strp_index func) of
                None \<Rightarrow> None
              | Some p \<Rightarrow>
                  (case c_str pool_raw p of
                     None \<Rightarrow> None
                   | Some name \<Rightarrow>
                       readFuncTable_loop P raw pool_raw strPool n (Suc i)
                         (map_insert table name (cached_addr func, func_size func)))))
      else Some table)"
  by pat_completeness auto
termination
  by (relation "measure (\<lambda>(P, raw, pool_raw, strPool, n, i, table). n - i)") auto

definition readFuncTable :: "platform \<Rightarrow> step" where
  "readFuncTable P r =
     (case mpHeader r of
        None \<Rightarrow> None
      | Some hb \<Rightarrow>
          (case CACHE_READER_READ_SECTION P hold_func_table
                  (func_table_offset (as_header P hb)) (func_table_size (as_header P hb)) r of
             None \<Rightarrow> None
           | Some (None, r1) \<Rightarrow> Some (False, r1)
           | Some (Some func_table_raw, r1) \<Rightarrow>
               (case mpResult r1 of
                  None \<Rightarrow> None
                | Some sc \<Rightarrow>
                    (case as_count P func_table_raw of
                       None \<Rightarrow> None
                     | Some n \<Rightarrow>
                         (case readFuncTable_loop P func_table_raw (pool_buffer sc)
                                 (mStringPool sc) n 0 (mFunctions sc) of
                            None \<Rightarrow> None
                          | Some table \<Rightarrow>
                              Some (True, r1\<lparr>mpResult := Some (sc\<lparr>mFunctions := table\<rparr>)\<rparr>))))))"

subsection \<open>The context\<close>

text \<open>
  Modelled from the spec: ContextManager.h, which declares \<open>allocateContext\<close>, is not
  part of the sources at hand. The spec describes a loader that, given a target address,
  a file descriptor and a file offset, places a block of the fixed context size in
  memory and returns its base address or failure. The model returns the block's bytes,
  and fails when the address is taken or the file does not hold a whole block at the
  offset.
\<close>

definition allocateContext :: "platform \<Rightarrow> nat list \<Rightarrow> nat \<Rightarrow> FileHandle \<Rightarrow> int \<Rightarrow> bytes option" where
  "allocateContext P slots addr f offset =
     (if addr \<in> set slots \<and> 0 \<le> getFD f \<and> 0 \<le> offset \<and>
         nat offset + BCC_CONTEXT_SIZE P \<le> length (contents f)
      then Some (take (BCC_CONTEXT_SIZE P) (drop (nat offset) (contents f)))
      else None)"

definition readContext :: "platform \<Rightarrow> step" where
  "readContext P r =
     (case mpHeader r of
        None \<Rightarrow> None
      | Some hb \<Rightarrow>
          (case mFile r of
             None \<Rightarrow> None
           | Some f \<Rightarrow>
               (case mpResult r of
                  None \<Rightarrow> None
                | Some sc \<Rightarrow>
                    let h = as_header P hb;
                        ctx = allocateContext P (free_slots r) (context_cached_addr h) f
                                (context_offset h);
                        r1 = emit (AllocateContext (context_cached_addr h) (context_offset h))
                               (r\<lparr>mpResult := Some (sc\<lparr>mContext := ctx\<rparr>)\<rparr>)
                    in if ctx = None then Some (False, r1) else Some (True, r1))))"

function checkContext_loop ::
  "platform \<Rightarrow> bytes \<Rightarrow> nat \<Rightarrow> 32 word \<Rightarrow> 32 word option" where
  "checkContext_loop P ctx i csum =
     (if i < BCC_CONTEXT_SIZE P div 4 then
        (case load32 P ctx i of
           None \<Rightarrow> None
         | Some w \<Rightarrow> checkContext_loop P ctx (Suc i) (csum XOR w))
      else Some csum)"
  by pat_completeness auto
termination
  by (relation "measure (\<lambda>(P, ctx, i, csum). BCC_CONTEXT_SIZE P div 4 - i)") auto

definition checkContext :: "platform \<Rightarrow> step" where
  "checkContext P r =
     (case mpHeader r of
        None \<Rightarrow> None
      | Some hb \<Rightarrow>
          (case mpResult r of
             None \<Rightarrow> None
           | Some sc \<Rightarrow>
               (case mContext sc of
                  None \<Rightarrow> None
                | Some ctx \<Rightarrow>
                    (case checkContext_loop P ctx 0
                            (context_parity_checksum (as_header P hb)) of
                       None \<Rightarrow> None
                     | Some csum \<Rightarrow> if csum \<noteq> 0 then Some (False, r) else Some (True, r)))))"

subsection \<open>The orchestrator\<close>

text \<open>\<open>a && b\<close> on two member calls: \<open>b\<close> runs only when \<open>a\<close> returned true.\<close>

definition and_also :: "step \<Rightarrow> step \<Rightarrow> step" where
  "and_also a b r =
     (case a r of
        None \<Rightarrow> None
      | Some (ok, r1) \<Rightarrow> if ok then b r1 else Some (False, r1))"

text \<open>
  \<open>readCacheFile\<close> returns the pointer to the result object, or null (\<open>None\<close>). The
  argument \<open>file\<close> is only tested; the member functions work on the member \<open>mFile\<close>.
  The smart pointer \<open>mpResult\<close> gives its object up with \<open>take()\<close> on success and keeps
  it otherwise.
\<close>

definition readCacheFile ::
  "platform \<Rightarrow> CacheReader \<Rightarrow> FileHandle option \<Rightarrow> (ScriptCached option \<times> CacheReader) option" where
  "readCacheFile P r file =
     (if file = None \<or> getFD (the file) < 0 then Some (None, r)
      else
        (case alloc New_ScriptCached r of
           (ok, r0) \<Rightarrow>
             if \<not> ok then Some (None, r0\<lparr>mpResult := None\<rparr>)
             else
               (case (and_also (and_also (and_also (and_also (and_also (and_also (and_also
                      (and_also (and_also (and_also (and_also (and_also (and_also (and_also
                        (checkFileSize P)
                        (readHeader P))
                        (checkHeader P))
                        (checkMachineIntType P))
                        (checkSectionOffsetAndSize P))
                        (readStringPool P))
                        (checkStringPool P))
                        (readDependencyTable P))
                        (checkDependency P))
                        (readExportVarList P))
                        (readExportFuncList P))
                        (readPragmaList P))
                        (readFuncTable P))
                        (readContext P))
                        (checkContext P))
                       (r0\<lparr>mpResult := Some new_ScriptCached\<rparr>) of
                  None \<Rightarrow> None
                | Some (result, r1) \<Rightarrow>
                    if result then Some (mpResult r1, r1\<lparr>mpResult := None\<rparr>)
                    else Some (None, r1))))"

section \<open>A 32-bit little-endian platform and a small cache file\<close>

text \<open>
  One platform on which the reader can be run: every integer of the file takes four
  bytes, least significant byte first; the header is 84 bytes long. Pages and the
  context are 16 bytes long, which keeps the example file short. A section is its
  \<open>count\<close> followed by the records: 8 bytes for a string (length, offset), 28 for a
  dependency (name index, type, fingerprint), 8 for a pragma, 12 for a function.
\<close>

definition get8 :: "bytes \<Rightarrow> nat \<Rightarrow> nat" where
  "get8 buf k = (if k < length buf then unat (buf ! k) else 0)"

definition get32 :: "bytes \<Rightarrow> nat \<Rightarrow> nat" where
  "get32 buf k =
     get8 buf k + 256 * get8 buf (k + 1) + 65536 * get8 buf (k + 2) + 16777216 * get8 buf (k + 3)"

definition member32 :: "bytes \<Rightarrow> nat \<Rightarrow> nat option" where
  "member32 buf k = (if k + 4 \<le> length buf then Some (get32 buf k) else None)"

definition ilp32_header :: "bytes \<Rightarrow> OBCC_Header" where
  "ilp32_header buf =
     \<lparr>magic = take 4 buf, version = take 4 (drop 4 buf), endianness = of_nat (get8 buf 8),
      sizeof_off_t = get8 buf 9, sizeof_size_t = get8 buf 10, sizeof_ptr_t = get8 buf 11,
      str_pool_offset = to_signed 32 (int (get32 buf 12)), str_pool_size = get32 buf 16,
      depend_tab_offset = to_signed 32 (int (get32 buf 20)), depend_tab_size = get32 buf 24,
      reloc_tab_offset = to_signed 32 (int (get32 buf 28)), reloc_tab_size = get32 buf 32,
      export_var_list_offset = to_signed 32 (int (get32 buf 36)),
      export_var_list_size = get32 buf 40,
      export_func_list_offset = to_signed 32 (int (get32 buf 44)),
      export_func_list_size = get32 buf 48,
      pragma_list_offset = to_signed 32 (int (get32 buf 52)), pragma_list_size = get32 buf 56,
      func_table_offset = to_signed 32 (int (get32 buf 60)), func_table_size = get32 buf 64,
      context_offset = to_signed 32 (int (get32 buf 68)), context_cached_addr = get32 buf 72,
      context_parity_checksum = of_nat (get32 buf 76)\<rparr>"

definition ilp32_string :: "bytes \<Rightarrow> nat \<Rightarrow> OBCC_String option" where
  "ilp32_string buf i =
     (if 4 + 8 * i + 8 \<le> length buf
      then Some \<lparr>str_length = get32 buf (4 + 8 * i),
                 str_offset = to_signed 32 (int (get32 buf (4 + 8 * i + 4)))\<rparr>
      else None)"

definition ilp32_dependency :: "bytes \<Rightarrow> nat \<Rightarrow> OBCC_Dependency option" where
  "ilp32_dependency buf i =
     (if 4 + 28 * i + 28 \<le> length buf
      then Some \<lparr>res_name_strp_index = get32 buf (4 + 28 * i),
                 res_type = of_nat (get32 buf (4 + 28 * i + 4)),
                 sha1 = take 20 (drop (4 + 28 * i + 8) buf)\<rparr>
      else None)"

definition ilp32_pragma :: "bytes \<Rightarrow> nat \<Rightarrow> OBCC_Pragma option" where
  "ilp32_pragma buf i =
     (if 4 + 8 * i + 8 \<le> length buf
      then Some \<lparr>key_strp_index = get32 buf (4 + 8 * i),
                 value_strp_index = get32 buf (4 + 8 * i + 4)\<rparr>
      else None)"

definition ilp32_func :: "bytes \<Rightarrow> nat \<Rightarrow> OBCC_FuncInfo option" where
  "ilp32_func buf i =
     (if 4 + 12 * i + 12 \<le> length buf
      then Some \<lparr>name_strp_index = get32 buf (4 + 12 * i),
                 cached_addr = get32 buf (4 + 12 * i + 4),
                 func_size = get32 buf (4 + 12 * i + 8)\<rparr>
      else None)"

text \<open>The magic is \<open>oBCC\<close>, the version \<open>001\<close> with its terminator.\<close>

definition ilp32 :: platform where
  "ilp32 =
     \<lparr>little_endian = True, host_int = 4, host_off_t = 4, host_size_t = 4, host_ptr = 4,
      host_pagesize = 16, sizeof_OBCC_Header = 84, BCC_CONTEXT_SIZE = 16,
      OBCC_MAGIC = [111, 66, 67, 67], OBCC_VERSION = [48, 48, 49, 0],
      as_header = ilp32_header, as_count = (\<lambda>buf. member32 buf 0),
      as_string = ilp32_string, as_dependency = ilp32_dependency,
      as_pragma = ilp32_pragma, as_func = ilp32_func\<rparr>"

text \<open>
  The file: the header, padding up to offset 96, the context (whose four words fold
  to \<open>0x10000000\<close>, the checksum in the header), the string pool with \<open>foo.rs\<close> and
  \<open>main\<close>, the dependency table, the relocation table, the two export lists and the
  pragma list (all empty), and the function table. The header is given for its
  endianness tag and the offset and the size of the function table, the file for its
  header and its dependency and function tables.
\<close>

definition demo_sha1 :: bytes where
  "demo_sha1 =
     [218, 57, 163, 238, 94, 107, 75, 13, 50, 85, 191, 239, 149, 96, 24, 144, 175, 216, 7, 9]"

definition demo_context :: bytes where
  "demo_context = [1, 2, 3, 4, 5, 6, 7, 8, 9, 10, 11, 12, 13, 14, 15, 16]"

definition demo_header :: "byte \<Rightarrow> byte \<Rightarrow> byte \<Rightarrow> bytes" where
  "demo_header tag func_off func_sz =
     [111, 66, 67, 67, 48, 48, 49, 0, tag, 4, 4, 4,
      112, 0, 0, 0, 32, 0, 0, 0,
      144, 0, 0, 0, 32, 0, 0, 0,
      176, 0, 0, 0, 4, 0, 0, 0,
      180, 0, 0, 0, 4, 0, 0, 0,
      184, 0, 0, 0, 4, 0, 0, 0,
      188, 0, 0, 0, 4, 0, 0, 0,
      func_off, 0, 0, 0, func_sz, 0, 0, 0,
      96, 0, 0, 0, 0, 16, 0, 0, 0, 0, 0, 16,
      0, 0, 0, 0]"

definition demo_str_pool :: bytes where
  "demo_str_pool =
     [2, 0, 0, 0, 6, 0, 0, 0, 20, 0, 0, 0, 4, 0, 0, 0, 27, 0, 0, 0,
      102, 111, 111, 46, 114, 115, 0, 109, 97, 105, 110, 0]"

definition demo_depend_tab :: "byte \<Rightarrow> bytes" where
  "demo_depend_tab name_index = [1, 0, 0, 0, name_index, 0, 0, 0, 1, 0, 0, 0] @ demo_sha1"

definition demo_func_table :: bytes where
  "demo_func_table = [1, 0, 0, 0, 1, 0, 0, 0, 0, 16, 0, 0, 64, 0, 0, 0]"

definition demo_image :: "bytes \<Rightarrow> bytes \<Rightarrow> bytes \<Rightarrow> bytes" where
  "demo_image hdr depend_tab func_table =
     hdr @ [0, 0, 0, 0, 0, 0, 0, 0, 0, 0, 0, 0] @ demo_context @ demo_str_pool @
     depend_tab @ [0, 0, 0, 0] @ [0, 0, 0, 0] @ [0, 0, 0, 0] @ [0, 0, 0, 0] @ func_table"

definition demo_file :: "bytes \<Rightarrow> FileHandle" where
  "demo_file img = \<lparr>getFD = 3, contents = img, position = 0\<rparr>"

text \<open>
  A reader whose file is the given one and which expects the dependency \<open>foo.rs\<close> of
  type 1 with the fingerprint above.
\<close>

definition demo_reader :: "FileHandle \<Rightarrow> CacheReader" where
  "demo_reader f =
     \<lparr>mFile = Some f, mFileSize = 0, mpHeader = None, mpCachedDependTable = None,
      mpPragmaList = None, mpFuncTable = None, mpResult = None,
      mDependencies = [([102, 111, 111, 46, 114, 115], (1, demo_sha1))],
      heap = [], free_slots = [4096], trace = []\<rparr>"

definition good_image :: bytes where
  "good_image = demo_image (demo_header 101 192 16) (demo_depend_tab 0) demo_func_table"

section \<open>Notions of the specification\<close>

subsection \<open>The order of the checks\<close>

text \<open>
  The specification describes the orchestrator as a state machine that enters a state
  only when the check before it succeeded, and fails for good at the first check that
  does not. \<open>all_of\<close> runs a list of checks that way; \<open>ordered_checks\<close> is the list in
  the order that the specification fixes; \<open>passes fs r rs\<close> says that the checks \<open>fs\<close>,
  started in \<open>r\<close>, all return success and lead through the states \<open>rs\<close>.
\<close>

fun all_of :: "step list \<Rightarrow> step" where
  "all_of [] r = Some (True, r)"
| "all_of (f # fs) r =
     (case f r of
        None \<Rightarrow> None
      | Some (ok, r1) \<Rightarrow> if ok then all_of fs r1 else Some (False, r1))"

definition ordered_checks :: "platform \<Rightarrow> step list" where
  "ordered_checks P =
     [checkFileSize P, readHeader P, checkHeader P, checkMachineIntType P,
      checkSectionOffsetAndSize P, readStringPool P, checkStringPool P,
      readDependencyTable P, checkDependency P, readExportVarList P, readExportFuncList P,
      readPragmaList P, readFuncTable P, readContext P, checkContext P]"

fun passes :: "step list \<Rightarrow> CacheReader \<Rightarrow> CacheReader list \<Rightarrow> bool" where
  "passes [] r [] = True"
| "passes (f # fs) r (r1 # rs) = (f r = Some (True, r1) \<and> passes fs r1 rs)"
| "passes fs r rs = False"

text \<open>What the header says about the machine, against the platform.\<close>

definition machine_agrees :: "platform \<Rightarrow> OBCC_Header \<Rightarrow> bool" where
  "machine_agrees P h =
     (endianness h = (if little_endian P then 101 else 69) \<and>
      sizeof_off_t h = host_off_t P \<and> sizeof_size_t h = host_size_t P \<and>
      sizeof_ptr_t h = host_ptr P)"

text \<open>The constants of the platform fit the signed types they are converted to.\<close>

definition sizes_fit :: "platform \<Rightarrow> bool" where
  "sizes_fit P =
     (int (sizeof_OBCC_Header P) < 2 ^ (8 * host_off_t P - 1) \<and>
      int (BCC_CONTEXT_SIZE P) < 2 ^ (8 * host_off_t P - 1) \<and>
      int (sizeof_OBCC_Header P) < 2 ^ (8 * host_size_t P - 1))"

subsection \<open>The parity of the context\<close>

text \<open>
  The words of the context that the checksum covers, their fold with exclusive or from
  a seed, the reader with another context in place, and a context with bit \<open>k\<close> of byte
  \<open>p\<close> flipped. \<open>flip_mask\<close> is the bit of the 32-bit word that this bit of the byte is.
\<close>

definition context_words :: "platform \<Rightarrow> bytes \<Rightarrow> 32 word list" where
  "context_words P ctx = map (\<lambda>i. the (load32 P ctx i)) [0..<BCC_CONTEXT_SIZE P div 4]"

definition xor_fold :: "32 word \<Rightarrow> 32 word list \<Rightarrow> 32 word" where
  "xor_fold seed ws = foldl (XOR) seed ws"

definition with_context :: "CacheReader \<Rightarrow> bytes \<Rightarrow> CacheReader" where
  "with_context r ctx =
     r\<lparr>mpResult := map_option (\<lambda>sc. sc\<lparr>mContext := Some ctx\<rparr>) (mpResult r)\<rparr>"

definition flip_bit_at :: "bytes \<Rightarrow> nat \<Rightarrow> nat \<Rightarrow> bytes" where
  "flip_bit_at ctx p k = ctx[p := flip_bit k (ctx ! p)]"

definition flip_mask :: "platform \<Rightarrow> nat \<Rightarrow> nat \<Rightarrow> 32 word" where
  "flip_mask P p k =
     push_bit (8 * (if little_endian P then p mod 4 else 3 - p mod 4) + k) 1"

subsection \<open>The terminators of the string pool\<close>

text \<open>
  The byte that follows entry \<open>i\<close> of a raw string pool, at \<open>offset + length\<close> from
  the start of the section (\<open>None\<close> when the entry or that byte is not inside the
  section), and the pointers that \<open>readStringPool\<close> collects for the first \<open>n\<close> entries.
\<close>

definition terminator :: "platform \<Rightarrow> bytes \<Rightarrow> nat \<Rightarrow> byte option" where
  "terminator P raw i =
     (case as_string P raw i of
        None \<Rightarrow> None
      | Some s \<Rightarrow> byte_at raw (str_offset s + int (str_length s)))"

definition pool_pointers :: "platform \<Rightarrow> bytes \<Rightarrow> nat \<Rightarrow> int list" where
  "pool_pointers P raw n = map (\<lambda>i. str_offset (the (as_string P raw i))) [0..<n]"

text \<open>The example pool with the terminator of its second string overwritten.\<close>

definition unterminated_str_pool :: bytes where
  "unterminated_str_pool =
     [2, 0, 0, 0, 6, 0, 0, 0, 20, 0, 0, 0, 4, 0, 0, 0, 27, 0, 0, 0,
      102, 111, 111, 46, 114, 115, 0, 109, 97, 105, 110, 33]"

subsection \<open>Matching a cached dependency\<close>

text \<open>
  The name of record \<open>i\<close> of a raw dependency table, resolved through the string pool
  (\<open>None\<close> when the record, the pool entry or the string's terminator is out of range),
  and the comparison of the record with an expected dependency: same name, same 20
  bytes of fingerprint, same type.
\<close>

definition cached_name :: "platform \<Rightarrow> bytes \<Rightarrow> bytes \<Rightarrow> int list \<Rightarrow> nat \<Rightarrow> bytes option" where
  "cached_name P tab raw strPool i =
     (case as_dependency P tab i of
        None \<Rightarrow> None
      | Some c \<Rightarrow>
          (case vec_at strPool (res_name_strp_index c) of
             None \<Rightarrow> None
           | Some p \<Rightarrow> c_str raw p))"

definition dependency_matches ::
  "platform \<Rightarrow> bytes \<Rightarrow> bytes \<Rightarrow> int list \<Rightarrow> nat \<Rightarrow> bytes \<times> (32 word \<times> bytes) \<Rightarrow> bool" where
  "dependency_matches P tab raw strPool i d =
     (case as_dependency P tab i of
        None \<Rightarrow> False
      | Some c \<Rightarrow>
          cached_name P tab raw strPool i = Some (fst d) \<and>
          take 20 (snd (snd d)) = take 20 (sha1 c) \<and>
          fst (snd d) = res_type c)"

subsection \<open>The records of the function table\<close>

text \<open>
  The name of record \<open>i\<close> of a raw function table, resolved through the string pool, and
  the address and size that the record gives.
\<close>

definition func_name :: "platform \<Rightarrow> bytes \<Rightarrow> bytes \<Rightarrow> int list \<Rightarrow> nat \<Rightarrow> bytes option" where
  "func_name P tab raw strPool i =
     (case as_func P tab i of
        None \<Rightarrow> None
      | Some f \<Rightarrow>
          (case vec_at strPool (name_strp_index f) of
             None \<Rightarrow> None
           | Some p \<Rightarrow> c_str raw p))"

definition func_entry :: "platform \<Rightarrow> bytes \<Rightarrow> nat \<Rightarrow> nat \<times> nat" where
  "func_entry P tab i =
     (case as_func P tab i of
        None \<Rightarrow> (0, 0)
      | Some f \<Rightarrow> (cached_addr f, func_size f))"

text \<open>
  A function table with two records of the same name, \<open>main\<close>: the first at address
  4096 with size 64, the second at address 8192 with size 8.
\<close>

definition twice_func_table :: bytes where
  "twice_func_table =
     [2, 0, 0, 0, 1, 0, 0, 0, 0, 16, 0, 0, 64, 0, 0, 0, 1, 0, 0, 0, 0, 32, 0, 0, 8, 0, 0, 0]"

text \<open>
  A pragma list with one pragma, whose key is pool entry 0 and whose value is the given
  pool entry; a function table with one function, whose name is the given pool entry.
\<close>

definition demo_pragma_list :: "byte \<Rightarrow> bytes" where
  "demo_pragma_list value_index = [1, 0, 0, 0, 0, 0, 0, 0, value_index, 0, 0, 0]"

definition demo_func_table_at :: "byte \<Rightarrow> bytes" where
  "demo_func_table_at name_index =
     [1, 0, 0, 0, name_index, 0, 0, 0, 0, 16, 0, 0, 64, 0, 0, 0]"

section \<open>Properties\<close>

text \<open>The equations of the loops are unfolded on demand only.\<close>

declare readStringPool_loop.simps [simp del] checkStringPool_loop.simps [simp del]
  checkDependency_loop.simps [simp del] readPragmaList_loop.simps [simp del]
  readFuncTable_loop.simps [simp del] checkContext_loop.simps [simp del]

lemmas demo_defs = good_image_def demo_reader_def demo_file_def demo_image_def demo_func_table_def
  demo_depend_tab_def demo_str_pool_def demo_header_def demo_context_def demo_sha1_def

lemmas ilp32_defs = ilp32_def ilp32_header_def ilp32_string_def ilp32_dependency_def
  ilp32_pragma_def ilp32_func_def member32_def get32_def get8_def to_signed_def

lemmas step_defs = and_also_def checkFileSize_def readHeader_def checkHeader_def
  checkMachineIntType_def checkSectionOffsetAndSize_def readStringPool_def checkStringPool_def
  checkStringPool_scan_def readDependencyTable_def checkDependency_def readExportVarList_def
  readExportFuncList_def readPragmaList_def readFuncTable_def readContext_def checkContext_def
  CACHE_READER_READ_SECTION_def CHECK_SECTION_OFFSET_def check_context_section_def and_then_def
  in_result_def hold_str_pool_def hold_depend_tab_def hold_export_var_list_def
  hold_export_func_list_def hold_pragma_list_def hold_func_table_def pool_buffer_def
  allocateContext_def emit_def alloc_def to_off_t_def to_ssize_t_def off_t_ok_def signed_ok_def
  FileHandle_seek_def FileHandle_read_def memcmp_def store32_def load32_def word32_def
  vec_at_def byte_at_def c_str_def map_insert_def new_ScriptCached_def
  readStringPool_loop.simps checkStringPool_loop.simps checkDependency_loop.simps
  readPragmaList_loop.simps readFuncTable_loop.simps checkContext_loop.simps

lemma to_signed_id:
  assumes "0 \<le> x" and "x < 2 ^ (bits - 1)"
  shows "to_signed bits x = x"
proof -
  have "(2::int) ^ (bits - 1) \<le> 2 ^ bits"
    by (rule power_increasing) simp_all
  with assms have "x < 2 ^ bits" by linarith
  with assms have "x mod 2 ^ bits = x" by (simp add: mod_pos_pos_trivial)
  with assms show ?thesis by (simp add: to_signed_def)
qed

lemma and_also_pair: "and_also f g = all_of [f, g]"
  by (rule ext) (simp add: and_also_def split: option.splits prod.splits)

lemma and_also_all_of: "and_also (all_of fs) g = all_of (fs @ [g])"
proof (rule ext)
  fix r show "and_also (all_of fs) g r = all_of (fs @ [g]) r"
  proof (induction fs arbitrary: r)
    case Nil
    show ?case by (simp add: and_also_def split: option.splits prod.splits)
  next
    case (Cons f fs)
    have *: "\<And>r1. and_also (all_of fs) g r1 = all_of (fs @ [g]) r1" by (rule Cons.IH)
    show ?case
      using * by (simp add: and_also_def split: option.splits prod.splits)
  qed
qed

lemma chain_all_of:
  "and_also (and_also (and_also (and_also (and_also (and_also (and_also
     (and_also (and_also (and_also (and_also (and_also (and_also (and_also
       (checkFileSize P) (readHeader P)) (checkHeader P)) (checkMachineIntType P))
       (checkSectionOffsetAndSize P)) (readStringPool P)) (checkStringPool P))
       (readDependencyTable P)) (checkDependency P)) (readExportVarList P))
       (readExportFuncList P)) (readPragmaList P)) (readFuncTable P)) (readContext P))
       (checkContext P) = all_of (ordered_checks P)"
proof -
  have "and_also (checkFileSize P) (readHeader P) = all_of [checkFileSize P, readHeader P]"
    by (rule and_also_pair)
  then show ?thesis
    by (simp only: and_also_all_of append.simps ordered_checks_def)
qed

lemma readCacheFile_all_of:
  "readCacheFile P r file =
     (if file = None \<or> getFD (the file) < 0 then Some (None, r)
      else
        (case alloc New_ScriptCached r of
           (ok, r0) \<Rightarrow>
             if \<not> ok then Some (None, r0\<lparr>mpResult := None\<rparr>)
             else
               (case all_of (ordered_checks P) (r0\<lparr>mpResult := Some new_ScriptCached\<rparr>) of
                  None \<Rightarrow> None
                | Some (result, r1) \<Rightarrow>
                    if result then Some (mpResult r1, r1\<lparr>mpResult := None\<rparr>)
                    else Some (None, r1))))"
  unfolding readCacheFile_def chain_all_of ..

text \<open>
  Claim C10. With a null file handle, or one whose descriptor is negative,
  \<open>readCacheFile\<close> returns null at once: the reader is left as it was, so nothing has
  been allocated, no byte has been read and no check has run (the trace has not grown).
\<close>

theorem readCacheFile_bad_handle:
  "readCacheFile P r None = Some (None, r) \<and>
   (getFD f < 0 \<longrightarrow> readCacheFile P r (Some f) = Some (None, r))"
  by (simp add: readCacheFile_def)

theorem readCacheFile_bad_handle_witness:
  "readCacheFile ilp32 (demo_reader (demo_file good_image)) None =
     Some (None, demo_reader (demo_file good_image)) \<and>
   getFD ((demo_file good_image)\<lparr>getFD := - 1\<rparr>) < 0 \<and>
   readCacheFile ilp32 (demo_reader (demo_file good_image))
     (Some ((demo_file good_image)\<lparr>getFD := - 1\<rparr>)) =
     Some (None, demo_reader (demo_file good_image))"
  using readCacheFile_bad_handle [of ilp32 "demo_reader (demo_file good_image)"
      "(demo_file good_image)\<lparr>getFD := - 1\<rparr>"]
  by simp

lemma alloc_cases:
  obtains r0 where "alloc e r = (False, r0)" "trace r0 = trace r @ [e]" "mFile r0 = mFile r"
  | r0 where "alloc e r = (True, r0)" "trace r0 = trace r @ [e]" "mFile r0 = mFile r"
  by (cases "heap r"; cases "hd (heap r)") (auto simp: alloc_def emit_def)

lemma checkFileSize_small:
  assumes "mFile r = Some f" and "sizes_fit P"
    and "length (contents f) < sizeof_OBCC_Header P \<or> length (contents f) < BCC_CONTEXT_SIZE P"
  shows "\<exists>r'. checkFileSize P r = Some (False, r') \<and> mFile r' = Some f \<and>
               trace r' = trace r @ [Fstat]"
  using assms
  by (auto simp: checkFileSize_def sizes_fit_def to_off_t_def to_signed_id emit_def Let_def)

text \<open>
  The size test works on the file behind the member \<open>mFile\<close>: when that file is
  shorter than the header or shorter than the context, \<open>readCacheFile\<close> returns null
  and has not read it; the only calls it made are the allocation of the result object
  and \<open>fstat\<close>. The argument \<open>file\<close> plays no part in it.
\<close>

lemma readCacheFile_small_member_file:
  assumes "mFile r = Some f" and "sizes_fit P"
    and "length (contents f) < sizeof_OBCC_Header P \<or> length (contents f) < BCC_CONTEXT_SIZE P"
  shows "\<exists>r' es. readCacheFile P r file = Some (None, r') \<and> mFile r' = Some f \<and>
                  trace r' = trace r @ es \<and> set es \<subseteq> {New_ScriptCached, Fstat}"
proof (cases "file = None \<or> getFD (the file) < 0")
  case True
  then have "readCacheFile P r file = Some (None, r)"
    by (simp add: readCacheFile_def)
  with assms(1) show ?thesis by simp
next
  case False
  then obtain fh where fh: "file = Some fh" "\<not> getFD fh < 0" by auto
  show ?thesis
  proof (rule alloc_cases [of New_ScriptCached r])
    fix r0 assume a: "alloc New_ScriptCached r = (False, r0)"
      "trace r0 = trace r @ [New_ScriptCached]" "mFile r0 = mFile r"
    with fh have "readCacheFile P r file = Some (None, r0\<lparr>mpResult := None\<rparr>)"
      by (simp add: readCacheFile_def)
    with a assms(1) show ?thesis by simp
  next
    fix r0 assume a: "alloc New_ScriptCached r = (True, r0)"
      "trace r0 = trace r @ [New_ScriptCached]" "mFile r0 = mFile r"
    let ?s = "r0\<lparr>mpResult := Some new_ScriptCached\<rparr>"
    have "mFile ?s = Some f" using a assms(1) by simp
    from checkFileSize_small [OF this assms(2,3)]
    obtain r' where r': "checkFileSize P ?s = Some (False, r')" "mFile r' = Some f"
      "trace r' = trace ?s @ [Fstat]" by blast
    then have "all_of (ordered_checks P) ?s = Some (False, r')"
      by (simp add: ordered_checks_def)
    with fh a have "readCacheFile P r file = Some (None, r')"
      by (simp add: readCacheFile_all_of)
    moreover have "trace r' = trace r @ [New_ScriptCached, Fstat]"
      using r' a by simp
    ultimately show ?thesis using r'(2) by simp
  qed
qed

lemma host_byte_order: "(hd (store32 P 1) = 1) = little_endian P"
  by (cases "little_endian P") (simp_all add: store32_def Let_def)

lemma checkMachineIntType_eq:
  "mpHeader r = Some hb \<Longrightarrow>
   checkMachineIntType P r = Some (machine_agrees P (as_header P hb), r)"
  by (auto simp: checkMachineIntType_def machine_agrees_def host_byte_order Let_def)

lemma checkFileSize_result:
  assumes "mFile r = Some f" and "sizes_fit P"
  shows "\<exists>b r'. checkFileSize P r = Some (b, r') \<and> mFile r' = Some f \<and>
           trace r' = trace r @ [Fstat] \<and>
           (b \<longrightarrow> sizeof_OBCC_Header P \<le> length (contents f))"
  using assms
  by (auto simp: checkFileSize_def sizes_fit_def to_off_t_def to_signed_id emit_def Let_def)

lemma readHeader_result:
  assumes "mFile r = Some f" and "sizes_fit P"
    and "sizeof_OBCC_Header P \<le> length (contents f)"
  shows "\<exists>b r' es. readHeader P r = Some (b, r') \<and> trace r' = trace r @ es \<and>
           set es \<subseteq> {Seek 0, Malloc (sizeof_OBCC_Header P), Read 0 (sizeof_OBCC_Header P)} \<and>
           (b \<longrightarrow> mpHeader r' = Some (take (sizeof_OBCC_Header P) (contents f)))"
proof -
  let ?n = "sizeof_OBCC_Header P"
  let ?r1 = "emit (Seek 0) (r\<lparr>mFile := Some (f\<lparr>position := 0\<rparr>)\<rparr>)"
  have t1: "trace ?r1 = trace r @ [Seek 0]" by (simp add: emit_def)
  have ssz: "to_ssize_t P (int ?n) = int ?n"
    using assms(2) by (simp add: sizes_fit_def to_ssize_t_def to_signed_id)
  show ?thesis
  proof (rule alloc_cases [of "Malloc ?n" ?r1])
    fix r2 assume a: "alloc (Malloc ?n) ?r1 = (False, r2)"
      "trace r2 = trace ?r1 @ [Malloc ?n]" "mFile r2 = mFile ?r1"
    then have "readHeader P r = Some (False, r2\<lparr>mpHeader := None\<rparr>)"
      using assms(1) by (simp add: readHeader_def FileHandle_seek_def)
    moreover have "trace (r2\<lparr>mpHeader := None\<rparr>) = trace r @ [Seek 0, Malloc ?n]"
      using a t1 by simp
    ultimately show ?thesis by fastforce
  next
    fix r2 assume a: "alloc (Malloc ?n) ?r1 = (True, r2)"
      "trace r2 = trace ?r1 @ [Malloc ?n]" "mFile r2 = mFile ?r1"
    let ?got = "take ?n (contents f)"
    let ?r3 = "emit (Read 0 ?n)
                 (r2\<lparr>mpHeader := Some ?got,
                      mFile := Some (f\<lparr>position := length ?got\<rparr>)\<rparr>)"
    have "readHeader P r = Some (True, ?r3)"
      using assms(1,3) a ssz
      by (simp add: readHeader_def FileHandle_seek_def FileHandle_read_def Let_def)
    moreover have "trace ?r3 = trace r @ [Seek 0, Malloc ?n, Read 0 ?n]"
      using a t1 by (simp add: emit_def)
    moreover have "mpHeader ?r3 = Some ?got" by (simp add: emit_def)
    ultimately show ?thesis by fastforce
  qed
qed

lemma checkHeader_result:
  "mpHeader r = Some hb \<Longrightarrow> \<exists>b. checkHeader P r = Some (b, r)"
  by (auto simp: checkHeader_def)

lemma open_rejects_machine_mismatch:
  assumes f: "mFile r = Some f" and fit: "sizes_fit P"
    and bad: "\<not> machine_agrees P (as_header P (take (sizeof_OBCC_Header P) (contents f)))"
  shows "\<exists>r' es. readCacheFile P r file = Some (None, r') \<and> trace r' = trace r @ es \<and>
           set es \<subseteq> {New_ScriptCached, Fstat, Seek 0, Malloc (sizeof_OBCC_Header P),
                     Read 0 (sizeof_OBCC_Header P)}"
proof (cases "file = None \<or> getFD (the file) < 0")
  case True
  then have "readCacheFile P r file = Some (None, r)"
    by (simp add: readCacheFile_def)
  then show ?thesis by simp
next
  case False
  then obtain fh where fh: "file = Some fh" "\<not> getFD fh < 0" by auto
  let ?A = "{New_ScriptCached, Fstat, Seek 0, Malloc (sizeof_OBCC_Header P),
             Read 0 (sizeof_OBCC_Header P)}"
  show ?thesis
  proof (rule alloc_cases [of New_ScriptCached r])
    fix r0 assume a: "alloc New_ScriptCached r = (False, r0)"
      "trace r0 = trace r @ [New_ScriptCached]" "mFile r0 = mFile r"
    with fh have "readCacheFile P r file = Some (None, r0\<lparr>mpResult := None\<rparr>)"
      by (simp add: readCacheFile_def)
    with a show ?thesis by simp
  next
    fix r0 assume a: "alloc New_ScriptCached r = (True, r0)"
      "trace r0 = trace r @ [New_ScriptCached]" "mFile r0 = mFile r"
    let ?s = "r0\<lparr>mpResult := Some new_ScriptCached\<rparr>"
    have sf: "mFile ?s = Some f" using a f by simp
    from checkFileSize_result [OF sf fit]
    obtain b1 r1 where s1: "checkFileSize P ?s = Some (b1, r1)" "mFile r1 = Some f"
      "trace r1 = trace ?s @ [Fstat]" "b1 \<longrightarrow> sizeof_OBCC_Header P \<le> length (contents f)"
      by blast
    have t1: "trace r1 = trace r @ [New_ScriptCached, Fstat]" using s1 a by simp
    show ?thesis
    proof (cases b1)
      case False
      with s1 have "all_of (ordered_checks P) ?s = Some (False, r1)"
        by (simp add: ordered_checks_def)
      with fh a have "readCacheFile P r file = Some (None, r1)"
        by (simp add: readCacheFile_all_of)
      with t1 show ?thesis by simp
    next
      case True
      with s1 have len: "sizeof_OBCC_Header P \<le> length (contents f)" by simp
      from readHeader_result [OF s1(2) fit len]
      obtain b2 r2 es2 where s2: "readHeader P r1 = Some (b2, r2)" "trace r2 = trace r1 @ es2"
        "set es2 \<subseteq> {Seek 0, Malloc (sizeof_OBCC_Header P), Read 0 (sizeof_OBCC_Header P)}"
        "b2 \<longrightarrow> mpHeader r2 = Some (take (sizeof_OBCC_Header P) (contents f))"
        by blast
      have t2: "trace r2 = trace r @ ([New_ScriptCached, Fstat] @ es2)"
        using s2 t1 by simp
      have e2: "set ([New_ScriptCached, Fstat] @ es2) \<subseteq> ?A" using s2(3) by auto
      show ?thesis
      proof (cases b2)
        case False
        with s1 s2 True have "all_of (ordered_checks P) ?s = Some (False, r2)"
          by (simp add: ordered_checks_def)
        with fh a have "readCacheFile P r file = Some (None, r2)"
          by (simp add: readCacheFile_all_of)
        with t2 e2 show ?thesis by blast
      next
        case b2: True
        with s2 have h: "mpHeader r2 = Some (take (sizeof_OBCC_Header P) (contents f))"
          by simp
        from checkHeader_result [OF h] obtain b3 where s3: "checkHeader P r2 = Some (b3, r2)"
          by blast
        have s4: "checkMachineIntType P r2 = Some (False, r2)"
          using checkMachineIntType_eq [OF h, of P] bad by simp
        have "all_of (ordered_checks P) ?s = Some (False, r2)"
          using s1 s2 s3 s4 True b2 by (cases b3) (simp_all add: ordered_checks_def)
        with fh a have "readCacheFile P r file = Some (None, r2)"
          by (simp add: readCacheFile_all_of)
        with t2 e2 show ?thesis by blast
      qed
    qed
  qed
qed

text \<open>
  Claim C7. \<open>checkMachineIntType\<close> returns true exactly when the header's endianness
  tag is the one of the platform's byte order (\<open>'e'\<close> little, \<open>'E'\<close> big) and its three
  widths are the platform's. When the header at the start of the reader's file does not
  agree, \<open>readCacheFile\<close> returns null, and all it has read is the header: its calls
  are among the allocation of the result object, \<open>fstat\<close>, the seek to 0, the
  allocation of the header and the read of the header.
\<close>

theorem checkMachineIntType_agrees:
  "(mpHeader r = Some hb \<longrightarrow>
      checkMachineIntType P r = Some (machine_agrees P (as_header P hb), r)) \<and>
   (mFile r = Some f \<and> sizes_fit P \<and>
    \<not> machine_agrees P (as_header P (take (sizeof_OBCC_Header P) (contents f))) \<longrightarrow>
      (\<exists>r' es. readCacheFile P r file = Some (None, r') \<and> trace r' = trace r @ es \<and>
         set es \<subseteq> {New_ScriptCached, Fstat, Seek 0, Malloc (sizeof_OBCC_Header P),
                   Read 0 (sizeof_OBCC_Header P)}))"
  using checkMachineIntType_eq [of r hb P] open_rejects_machine_mismatch [of r f P "file"]
  by blast

lemma passes_all_of:
  "passes fs r rs \<Longrightarrow> all_of fs r = Some (True, last (r # rs))"
  by (induction fs r rs rule: passes.induct) simp_all

lemma all_of_passes:
  "all_of fs r = Some (True, r') \<Longrightarrow> \<exists>rs. passes fs r rs \<and> last (r # rs) = r'"
proof (induction fs arbitrary: r)
  case Nil
  then have "passes [] r [] \<and> last (r # []) = r'" by simp
  then show ?case by blast
next
  case (Cons f fs)
  from Cons.prems obtain ok r1 where fr: "f r = Some (ok, r1)"
    by (cases "f r") auto
  with Cons.prems have ok: "ok" and rest: "all_of fs r1 = Some (True, r')"
    by (cases ok; simp)+
  from Cons.IH [OF rest] obtain rs where "passes fs r1 rs" "last (r1 # rs) = r'" by blast
  with fr ok have "passes (f # fs) r (r1 # rs) \<and> last (r # r1 # rs) = r'" by simp
  then show ?case by blast
qed

lemma all_of_first_failure:
  "k < length fs \<Longrightarrow> passes (take k fs) r rs \<Longrightarrow>
   (fs ! k) (last (r # rs)) = Some (False, rk) \<Longrightarrow> all_of fs r = Some (False, rk)"
proof (induction fs arbitrary: k r rs)
  case Nil
  then show ?case by simp
next
  case (Cons f fs)
  show ?case
  proof (cases k)
    case 0
    with Cons.prems have "rs = []" by (cases rs) simp_all
    with 0 Cons.prems show ?thesis by simp
  next
    case (Suc j)
    with Cons.prems obtain r1 rs' where c: "rs = r1 # rs'" by (cases rs) simp_all
    with Suc Cons.prems have "f r = Some (True, r1)" "passes (take j fs) r1 rs'"
      "(fs ! j) (last (r1 # rs')) = Some (False, rk)" "j < length fs" by simp_all
    with Cons.IH [of j r1 rs'] show ?thesis by simp
  qed
qed

lemma passes_length: "passes fs r rs \<Longrightarrow> length rs = length fs"
  by (induction fs r rs rule: passes.induct) simp_all

lemma checkContext_keeps_result:
  "checkContext P r = Some (b, r') \<Longrightarrow> r' = r \<and> mpResult r \<noteq> None"
  by (auto simp: checkContext_def split: option.splits if_splits)

lemma success_has_result:
  assumes "all_of (ordered_checks P) s = Some (True, r1)"
  shows "mpResult r1 \<noteq> None"
proof -
  have "all_of (ordered_checks P) s =
          and_also (all_of (butlast (ordered_checks P))) (checkContext P) s"
    by (simp add: and_also_all_of ordered_checks_def)
  with assms have "and_also (all_of (butlast (ordered_checks P))) (checkContext P) s =
          Some (True, r1)" by simp
  then obtain r' where "checkContext P r' = Some (True, r1)"
    unfolding and_also_def by (auto split: option.splits prod.splits if_splits)
  then show ?thesis using checkContext_keeps_result by blast
qed

text \<open>
  Claim C1. Once the file handle is accepted and the result object is allocated,
  \<open>readCacheFile\<close> returns a result object (not null) if and only if the checks, run in
  the order of \<open>ordered_checks\<close> (file size, header read, magic and version, machine
  integer types, section bounds, string pool read and validation, dependency table
  read and match, export variables, export functions, pragmas, function table, context
  load, context checksum), each return success on the state its predecessor left. In that
  case it returns the object of the last state. When the first \<open>k\<close> checks succeed and the
  next one fails, it returns null and leaves the reader in the state of the failing
  check: no later check has run.
\<close>

theorem readCacheFile_iff_all_checks:
  assumes "file = Some fh" and "0 \<le> getFD fh"
    and "alloc New_ScriptCached r = (True, r0)"
  shows "((\<exists>a r'. readCacheFile P r file = Some (Some a, r')) \<longleftrightarrow>
            (\<exists>rs. passes (ordered_checks P) (r0\<lparr>mpResult := Some new_ScriptCached\<rparr>) rs)) \<and>
         (\<forall>rs. passes (ordered_checks P) (r0\<lparr>mpResult := Some new_ScriptCached\<rparr>) rs \<longrightarrow>
            readCacheFile P r file =
              Some (mpResult (last rs), (last rs)\<lparr>mpResult := None\<rparr>)) \<and>
         (\<forall>k rs rk. k < length (ordered_checks P) \<and>
            passes (take k (ordered_checks P)) (r0\<lparr>mpResult := Some new_ScriptCached\<rparr>) rs \<and>
            (ordered_checks P ! k) (last (r0\<lparr>mpResult := Some new_ScriptCached\<rparr> # rs)) =
              Some (False, rk) \<longrightarrow>
            readCacheFile P r file = Some (None, rk))"
proof -
  let ?s = "r0\<lparr>mpResult := Some new_ScriptCached\<rparr>"
  have open_eq: "readCacheFile P r file =
      (case all_of (ordered_checks P) ?s of
         None \<Rightarrow> None
       | Some (result, r1) \<Rightarrow>
           if result then Some (mpResult r1, r1\<lparr>mpResult := None\<rparr>) else Some (None, r1))"
    using assms by (simp add: readCacheFile_all_of)
  have success: "readCacheFile P r file = Some (mpResult (last rs), (last rs)\<lparr>mpResult := None\<rparr>)"
    if "passes (ordered_checks P) ?s rs" for rs
  proof -
    from that have "length rs = length (ordered_checks P)" by (rule passes_length)
    then have "rs \<noteq> []" by (auto simp: ordered_checks_def)
    then have "last (?s # rs) = last rs" by simp
    with that have "all_of (ordered_checks P) ?s = Some (True, last rs)"
      using passes_all_of [of "ordered_checks P" ?s rs] by simp
    then show ?thesis by (simp add: open_eq)
  qed
  have "(\<exists>a r'. readCacheFile P r file = Some (Some a, r')) \<longleftrightarrow>
        (\<exists>rs. passes (ordered_checks P) ?s rs)"
  proof
    assume "\<exists>a r'. readCacheFile P r file = Some (Some a, r')"
    then obtain a r' where "readCacheFile P r file = Some (Some a, r')" by blast
    then obtain r1 where "all_of (ordered_checks P) ?s = Some (True, r1)"
      by (auto simp: open_eq split: option.splits prod.splits if_splits)
    then show "\<exists>rs. passes (ordered_checks P) ?s rs"
      using all_of_passes by blast
  next
    assume "\<exists>rs. passes (ordered_checks P) ?s rs"
    then obtain rs where rs: "passes (ordered_checks P) ?s rs" by blast
    then have "all_of (ordered_checks P) ?s = Some (True, last (?s # rs))"
      by (rule passes_all_of)
    then have "mpResult (last (?s # rs)) \<noteq> None" by (rule success_has_result)
    moreover from rs have "length rs = length (ordered_checks P)" by (rule passes_length)
    then have "rs \<noteq> []" by (auto simp: ordered_checks_def)
    ultimately obtain a where "mpResult (last rs) = Some a" by auto
    with success [OF rs] show "\<exists>a r'. readCacheFile P r file = Some (Some a, r')" by simp
  qed
  moreover have "readCacheFile P r file = Some (None, rk)"
    if "k < length (ordered_checks P)" "passes (take k (ordered_checks P)) ?s rs"
       "(ordered_checks P ! k) (last (?s # rs)) = Some (False, rk)" for k rs rk
  proof -
    from that have "all_of (ordered_checks P) ?s = Some (False, rk)"
      by (rule all_of_first_failure)
    then show ?thesis by (simp add: open_eq)
  qed
  ultimately show ?thesis using success by blast
qed

theorem readCacheFile_iff_all_checks_witness:
  "alloc New_ScriptCached (demo_reader (demo_file good_image)) =
     (True, emit New_ScriptCached (demo_reader (demo_file good_image))) \<and>
   (\<exists>a r'. readCacheFile ilp32 (demo_reader (demo_file good_image))
              (Some (demo_file good_image)) = Some (Some a, r')) \<and>
   (\<exists>rs. passes (ordered_checks ilp32)
           ((emit New_ScriptCached (demo_reader (demo_file good_image)))
              \<lparr>mpResult := Some new_ScriptCached\<rparr>) rs) \<and>
   checkFileSize ilp32
     ((emit New_ScriptCached (demo_reader (demo_file [1, 2, 3])))
        \<lparr>mpResult := Some new_ScriptCached\<rparr>) =
     Some (False, (emit Fstat ((emit New_ScriptCached (demo_reader (demo_file [1, 2, 3])))
                     \<lparr>mpResult := Some new_ScriptCached\<rparr>))\<lparr>mFileSize := 3\<rparr>) \<and>
   readCacheFile ilp32 (demo_reader (demo_file [1, 2, 3])) (Some (demo_file [1, 2, 3])) =
     Some (None, (emit Fstat ((emit New_ScriptCached (demo_reader (demo_file [1, 2, 3])))
                    \<lparr>mpResult := Some new_ScriptCached\<rparr>))\<lparr>mFileSize := 3\<rparr>)"
proof -
  let ?R = "demo_reader (demo_file good_image)"
  let ?S = "demo_reader (demo_file [1, 2, 3])"
  let ?s0 = "(emit New_ScriptCached ?S)\<lparr>mpResult := Some new_ScriptCached\<rparr>"
  have fd: "0 \<le> getFD (demo_file img)" for img
    by (simp add: demo_file_def)
  have a: "alloc New_ScriptCached (demo_reader f) = (True, emit New_ScriptCached (demo_reader f))"
    for f by (simp add: alloc_def demo_reader_def)
  have ev: "\<exists>a r'. readCacheFile ilp32 ?R (Some (demo_file good_image)) = Some (Some a, r')"
    by (simp add: readCacheFile_def step_defs demo_defs ilp32_defs)
  have small: "checkFileSize ilp32 ?s0 = Some (False, (emit Fstat ?s0)\<lparr>mFileSize := 3\<rparr>)"
    by (simp add: checkFileSize_def demo_reader_def demo_file_def emit_def ilp32_def
        to_off_t_def to_signed_def)
  then have k0: "0 < length (ordered_checks ilp32) \<and>
      passes (take 0 (ordered_checks ilp32)) ?s0 [] \<and>
      (ordered_checks ilp32 ! 0) (last (?s0 # [])) = Some (False, (emit Fstat ?s0)\<lparr>mFileSize := 3\<rparr>)"
    by (simp add: ordered_checks_def)
  from readCacheFile_iff_all_checks
         [where P = ilp32, OF refl fd [of good_image] a [of "demo_file good_image"]] ev
  have "\<exists>rs. passes (ordered_checks ilp32)
           ((emit New_ScriptCached ?R)\<lparr>mpResult := Some new_ScriptCached\<rparr>) rs"
    by blast
  moreover from readCacheFile_iff_all_checks
         [where P = ilp32, OF refl fd [of "[1, 2, 3]"] a [of "demo_file [1, 2, 3]"]] k0
  have "readCacheFile ilp32 ?S (Some (demo_file [1, 2, 3])) =
          Some (None, (emit Fstat ?s0)\<lparr>mFileSize := 3\<rparr>)"
    by blast
  ultimately show ?thesis using a ev small by blast
qed

theorem checkMachineIntType_agrees_witness:
  "checkMachineIntType ilp32
     ((demo_reader (demo_file good_image))\<lparr>mpHeader := Some (demo_header 69 192 16)\<rparr>) =
     Some (False, (demo_reader (demo_file good_image))\<lparr>mpHeader := Some (demo_header 69 192 16)\<rparr>) \<and>
   checkMachineIntType ilp32
     ((demo_reader (demo_file good_image))\<lparr>mpHeader := Some (demo_header 101 192 16)\<rparr>) =
     Some (True, (demo_reader (demo_file good_image))\<lparr>mpHeader := Some (demo_header 101 192 16)\<rparr>) \<and>
   (\<exists>r' es. readCacheFile ilp32
        (demo_reader (demo_file (demo_image (demo_header 69 192 16) (demo_depend_tab 0) demo_func_table)))
        (Some (demo_file (demo_image (demo_header 69 192 16) (demo_depend_tab 0) demo_func_table))) =
        Some (None, r') \<and>
      trace r' = es \<and>
      set es \<subseteq> {New_ScriptCached, Fstat, Seek 0, Malloc 84, Read 0 84})"
proof -
  let ?R = "demo_reader (demo_file good_image)"
  let ?F = "demo_file (demo_image (demo_header 69 192 16) (demo_depend_tab 0) demo_func_table)"
  have big: "\<not> machine_agrees ilp32 (as_header ilp32 (demo_header 69 192 16))"
    by (simp add: machine_agrees_def ilp32_defs demo_header_def)
  have little: "machine_agrees ilp32 (as_header ilp32 (demo_header 101 192 16))"
    by (simp add: machine_agrees_def ilp32_defs demo_header_def)
  have hdr: "take (sizeof_OBCC_Header ilp32) (contents ?F) = demo_header 69 192 16"
    by (simp add: ilp32_def demo_file_def demo_image_def demo_header_def)
  have pre: "mFile (demo_reader ?F) = Some ?F \<and> sizes_fit ilp32 \<and>
      \<not> machine_agrees ilp32 (as_header ilp32 (take (sizeof_OBCC_Header ilp32) (contents ?F)))"
    using big by (simp add: hdr) (simp add: demo_reader_def sizes_fit_def ilp32_def)
  have n: "sizeof_OBCC_Header ilp32 = 84" "trace (demo_reader ?F) = []"
    by (simp_all add: ilp32_def demo_reader_def)
  from checkMachineIntType_agrees
         [of "?R\<lparr>mpHeader := Some (demo_header 69 192 16)\<rparr>" "demo_header 69 192 16" ilp32]
       big
  have 1: "checkMachineIntType ilp32 (?R\<lparr>mpHeader := Some (demo_header 69 192 16)\<rparr>) =
      Some (False, ?R\<lparr>mpHeader := Some (demo_header 69 192 16)\<rparr>)"
    by simp
  from checkMachineIntType_agrees
         [of "?R\<lparr>mpHeader := Some (demo_header 101 192 16)\<rparr>" "demo_header 101 192 16" ilp32]
       little
  have 2: "checkMachineIntType ilp32 (?R\<lparr>mpHeader := Some (demo_header 101 192 16)\<rparr>) =
      Some (True, ?R\<lparr>mpHeader := Some (demo_header 101 192 16)\<rparr>)"
    by simp
  from checkMachineIntType_agrees [of "demo_reader ?F" _ ilp32 ?F "Some ?F"] pre
  have 3: "\<exists>r' es. readCacheFile ilp32 (demo_reader ?F) (Some ?F) = Some (None, r') \<and>
      trace r' = es \<and> set es \<subseteq> {New_ScriptCached, Fstat, Seek 0, Malloc 84, Read 0 84}"
    by (simp add: n)
  from 1 2 3 show ?thesis by blast
qed

text \<open>
  Claim C3. \<open>checkSectionOffsetAndSize\<close> applies its section check to the string pool,
  the dependency table, the relocation table, the two export lists and the pragma list,
  but not to the function table, which \<open>readFuncTable\<close> reads with the same macro as
  the others. On the example platform, with a file of 208 bytes, it returns true for a
  header whose function table has offset 255 (beyond the file, not a multiple of four)
  and size 0; and the file whose function table lies at offset 193 is opened with
  success, its function \<open>main\<close> included.
\<close>

theorem func_table_section_unchecked:
  "checkSectionOffsetAndSize ilp32
     ((demo_reader (demo_file good_image))
        \<lparr>mpHeader := Some (demo_header 101 255 0), mFileSize := 208\<rparr>) =
     Some (True, (demo_reader (demo_file good_image))
        \<lparr>mpHeader := Some (demo_header 101 255 0), mFileSize := 208\<rparr>) \<and>
   func_table_offset (as_header ilp32 (demo_header 101 193 16)) = 193 \<and>
   map_option (\<lambda>(a, r'). map_option (\<lambda>sc. mFunctions sc [109, 97, 105, 110]) a)
     (readCacheFile ilp32
        (demo_reader (demo_file (demo_image (demo_header 101 193 16) (demo_depend_tab 0)
                                   (0 # demo_func_table))))
        (Some (demo_file (demo_image (demo_header 101 193 16) (demo_depend_tab 0)
                            (0 # demo_func_table))))) =
     Some (Some (Some (4096, 64)))"
proof -
  have 1: "checkSectionOffsetAndSize ilp32
     ((demo_reader (demo_file good_image))
        \<lparr>mpHeader := Some (demo_header 101 255 0), mFileSize := 208\<rparr>) =
     Some (True, (demo_reader (demo_file good_image))
        \<lparr>mpHeader := Some (demo_header 101 255 0), mFileSize := 208\<rparr>)"
    by (simp add: checkSectionOffsetAndSize_def CHECK_SECTION_OFFSET_def
        check_context_section_def and_then_def to_off_t_def off_t_ok_def signed_ok_def
        ilp32_defs demo_header_def)
  have 2: "func_table_offset (as_header ilp32 (demo_header 101 193 16)) = 193"
    by (simp add: ilp32_defs demo_header_def)
  have 3: "map_option (\<lambda>(a, r'). map_option (\<lambda>sc. mFunctions sc [109, 97, 105, 110]) a)
     (readCacheFile ilp32
        (demo_reader (demo_file (demo_image (demo_header 101 193 16) (demo_depend_tab 0)
                                   (0 # demo_func_table))))
        (Some (demo_file (demo_image (demo_header 101 193 16) (demo_depend_tab 0)
                            (0 # demo_func_table))))) =
     Some (Some (Some (4096, 64)))"
    by (simp add: readCacheFile_def step_defs demo_defs ilp32_defs)
  from 1 2 3 show ?thesis by blast
qed

lemma bit_byte: "bit (a :: byte) n \<Longrightarrow> n < 8"
  using bit_imp_le_length [of a n] by simp

lemma bit_word32:
  "bit (word32 a b c d) n \<longleftrightarrow>
     (n < 8 \<and> bit a n) \<or> (8 \<le> n \<and> n < 16 \<and> bit b (n - 8)) \<or>
     (16 \<le> n \<and> n < 24 \<and> bit c (n - 16)) \<or> (24 \<le> n \<and> n < 32 \<and> bit d (n - 24))"
proof -
  have a: "bit (ucast a :: 32 word) n \<longleftrightarrow> n < 8 \<and> bit a n"
    using bit_byte [of a n] by (auto simp: bit_simps)
  have b: "bit (push_bit 8 (ucast b :: 32 word)) n \<longleftrightarrow> 8 \<le> n \<and> n < 16 \<and> bit b (n - 8)"
    using bit_byte [of b "n - 8"] by (auto simp: bit_simps)
  have c: "bit (push_bit 16 (ucast c :: 32 word)) n \<longleftrightarrow> 16 \<le> n \<and> n < 24 \<and> bit c (n - 16)"
    using bit_byte [of c "n - 16"] by (auto simp: bit_simps)
  have d: "bit (push_bit 24 (ucast d :: 32 word)) n \<longleftrightarrow> 24 \<le> n \<and> n < 32 \<and> bit d (n - 24)"
    using bit_byte [of d "n - 24"] by (auto simp: bit_simps)
  show ?thesis
    unfolding word32_def bit_or_iff a b c d by blast
qed

lemma bit_one_at: "bit (push_bit m (1 :: 32 word)) n \<longleftrightarrow> n = m \<and> m < 32"
  by (auto simp: bit_simps)

lemma bit_power_at: "bit ((2 :: 32 word) ^ m) n \<longleftrightarrow> n = m \<and> m < 32"
  using bit_one_at [of m n] by simp

lemma bit_flip_byte: "k < 8 \<Longrightarrow> bit (flip_bit k x) n \<longleftrightarrow> ((n = k) \<noteq> bit (x :: byte) n)"
  using bit_byte [of x n] by (auto simp: bit_simps)

lemma word32_flip0:
  assumes "k < 8"
  shows "word32 (flip_bit k a) b c d = word32 a b c d XOR push_bit k 1"
proof (rule bit_eqI)
  fix n
  show "bit (word32 (flip_bit k a) b c d) n = bit (word32 a b c d XOR push_bit k 1) n"
  proof (cases "n < 8")
    case True
    with assms show ?thesis
      by (simp add: bit_word32 bit_xor_iff bit_one_at bit_power_at bit_flip_byte) blast?
  next
    case False
    with assms have "n \<noteq> k" by simp
    with False show ?thesis
      by (auto simp add: bit_word32 bit_xor_iff bit_one_at bit_power_at)
  qed
qed

lemma word32_flip1:
  assumes "k < 8"
  shows "word32 a (flip_bit k b) c d = word32 a b c d XOR push_bit (8 + k) 1"
proof (rule bit_eqI)
  fix n
  show "bit (word32 a (flip_bit k b) c d) n = bit (word32 a b c d XOR push_bit (8 + k) 1) n"
  proof (cases "8 \<le> n \<and> n < 16")
    case True
    then have "(n - 8 = k) = (n = 8 + k)" by auto
    with True assms show ?thesis
      by (simp add: bit_word32 bit_xor_iff bit_one_at bit_power_at bit_flip_byte) blast?
  next
    case False
    with assms have "n \<noteq> 8 + k" by auto
    with False show ?thesis
      by (auto simp add: bit_word32 bit_xor_iff bit_one_at bit_power_at)
  qed
qed

lemma word32_flip2:
  assumes "k < 8"
  shows "word32 a b (flip_bit k c) d = word32 a b c d XOR push_bit (16 + k) 1"
proof (rule bit_eqI)
  fix n
  show "bit (word32 a b (flip_bit k c) d) n = bit (word32 a b c d XOR push_bit (16 + k) 1) n"
  proof (cases "16 \<le> n \<and> n < 24")
    case True
    then have "(n - 16 = k) = (n = 16 + k)" by auto
    with True assms show ?thesis
      by (simp add: bit_word32 bit_xor_iff bit_one_at bit_power_at bit_flip_byte) blast?
  next
    case False
    with assms have "n \<noteq> 16 + k" by auto
    with False show ?thesis
      by (auto simp add: bit_word32 bit_xor_iff bit_one_at bit_power_at)
  qed
qed

lemma word32_flip3:
  assumes "k < 8"
  shows "word32 a b c (flip_bit k d) = word32 a b c d XOR push_bit (24 + k) 1"
proof (rule bit_eqI)
  fix n
  show "bit (word32 a b c (flip_bit k d)) n = bit (word32 a b c d XOR push_bit (24 + k) 1) n"
  proof (cases "24 \<le> n \<and> n < 32")
    case True
    then have "(n - 24 = k) = (n = 24 + k)" by auto
    with True assms show ?thesis
      by (simp add: bit_word32 bit_xor_iff bit_one_at bit_power_at bit_flip_byte) blast?
  next
    case False
    with assms have "n \<noteq> 24 + k \<or> \<not> n < 32" by auto
    with False assms show ?thesis
      by (auto simp add: bit_word32 bit_xor_iff bit_one_at bit_power_at)
  qed
qed

lemma one_bit_nonzero: "m < 32 \<Longrightarrow> push_bit m 1 \<noteq> (0 :: 32 word)"
proof
  assume m: "m < 32" and z: "push_bit m 1 = (0 :: 32 word)"
  from m have "bit (push_bit m 1 :: 32 word) m" by (simp add: bit_simps)
  then have "bit (0 :: 32 word) m" by (simp only: z)
  then show False by simp
qed

lemma xor_fold_seed: "foldl (XOR) (s XOR d) ws = foldl (XOR) s ws XOR (d :: 32 word)"
proof (induction ws arbitrary: s)
  case Nil
  show ?case by simp
next
  case (Cons w ws)
  have sw: "(s XOR d) XOR w = (s XOR w) XOR d" by (simp add: ac_simps)
  have "foldl (XOR) (s XOR d) (w # ws) = foldl (XOR) ((s XOR w) XOR d) ws"
    by (simp only: foldl.simps sw)
  also have "\<dots> = foldl (XOR) (s XOR w) ws XOR d" by (rule Cons.IH)
  also have "\<dots> = foldl (XOR) s (w # ws) XOR d" by (simp only: foldl.simps)
  finally show ?case .
qed


lemma xor_fold_update:
  "j < length ws \<Longrightarrow> foldl (XOR) s (ws[j := ws ! j XOR d]) = foldl (XOR) s ws XOR (d :: 32 word)"
proof (induction ws arbitrary: s j)
  case Nil
  then show ?case by simp
next
  case (Cons w ws)
  show ?case
  proof (cases j)
    case 0
    have "s XOR (w XOR d) = (s XOR w) XOR d" by (simp add: ac_simps)
    with 0 show ?thesis by (simp add: xor_fold_seed)
  next
    case (Suc i)
    with Cons.prems Cons.IH [of i "s XOR w"] show ?thesis by simp
  qed
qed

lemma load32_elsewhere:
  assumes "j \<noteq> p div 4"
  shows "load32 P (ctx[p := v]) j = load32 P ctx j"
proof -
  from assms have "p \<noteq> 4 * j" "p \<noteq> 4 * j + 1" "p \<noteq> 4 * j + 2" "p \<noteq> 4 * j + 3"
    by presburger+
  then show ?thesis by (simp add: load32_def)
qed

lemma load32_flipped:
  assumes "4 * (p div 4) + 4 \<le> length ctx" and "k < 8"
  shows "load32 P (flip_bit_at ctx p k) (p div 4) =
           Some (the (load32 P ctx (p div 4)) XOR flip_mask P p k)"
proof -
  let ?q = "p div 4"
  have "p = 4 * ?q + p mod 4" by simp
  moreover have "p mod 4 = 0 \<or> p mod 4 = 1 \<or> p mod 4 = 2 \<or> p mod 4 = 3" by presburger
  ultimately consider (0) "p = 4 * ?q" | (1) "p = 4 * ?q + 1" | (2) "p = 4 * ?q + 2"
    | (3) "p = 4 * ?q + 3"
    by fastforce
  then show ?thesis
  proof cases
    case 0
    then have m: "p mod 4 = 0" by presburger
    from 0 have u: "flip_bit_at ctx p k = ctx[4 * ?q := flip_bit k (ctx ! (4 * ?q))]"
      by (simp add: flip_bit_at_def)
    show ?thesis using assms
      unfolding u by (simp add: load32_def flip_mask_def m word32_flip0 word32_flip3)
  next
    case 1
    then have m: "p mod 4 = 1" by presburger
    from 1 have u: "flip_bit_at ctx p k = ctx[4 * ?q + 1 := flip_bit k (ctx ! (4 * ?q + 1))]"
      by (simp add: flip_bit_at_def)
    show ?thesis using assms
      unfolding u by (simp add: load32_def flip_mask_def m word32_flip1 word32_flip2)
  next
    case 2
    then have m: "p mod 4 = 2" by presburger
    from 2 have u: "flip_bit_at ctx p k = ctx[4 * ?q + 2 := flip_bit k (ctx ! (4 * ?q + 2))]"
      by (simp add: flip_bit_at_def)
    show ?thesis using assms
      unfolding u by (simp add: load32_def flip_mask_def m word32_flip1 word32_flip2)
  next
    case 3
    then have m: "p mod 4 = 3" by presburger
    from 3 have u: "flip_bit_at ctx p k = ctx[4 * ?q + 3 := flip_bit k (ctx ! (4 * ?q + 3))]"
      by (simp add: flip_bit_at_def)
    show ?thesis using assms
      unfolding u by (simp add: load32_def flip_mask_def m word32_flip0 word32_flip3)
  qed
qed

lemma flip_mask_nonzero: "k < 8 \<Longrightarrow> flip_mask P p k \<noteq> 0"
proof -
  assume k: "k < 8"
  have "p mod 4 < 4" by simp
  with k have "8 * (if little_endian P then p mod 4 else 3 - p mod 4) + k < 32"
    by (cases "little_endian P") simp_all
  then show ?thesis unfolding flip_mask_def by (rule one_bit_nonzero)
qed

lemma context_words_flipped:
  assumes "4 * (BCC_CONTEXT_SIZE P div 4) \<le> length ctx"
    and "p < 4 * (BCC_CONTEXT_SIZE P div 4)" and "k < 8"
  shows "context_words P (flip_bit_at ctx p k) =
           (context_words P ctx)[p div 4 := context_words P ctx ! (p div 4) XOR flip_mask P p k]"
proof (rule nth_equalityI)
  show "length (context_words P (flip_bit_at ctx p k)) =
        length ((context_words P ctx)[p div 4 := context_words P ctx ! (p div 4) XOR flip_mask P p k])"
    by (simp add: context_words_def)
next
  fix i assume "i < length (context_words P (flip_bit_at ctx p k))"
  then have i: "i < BCC_CONTEXT_SIZE P div 4" by (simp add: context_words_def)
  from assms(2) have q: "p div 4 < BCC_CONTEXT_SIZE P div 4" by presburger
  with assms(1) have fit: "4 * (p div 4) + 4 \<le> length ctx" by simp
  show "context_words P (flip_bit_at ctx p k) ! i =
        (context_words P ctx)[p div 4 := context_words P ctx ! (p div 4) XOR flip_mask P p k] ! i"
  proof (cases "i = p div 4")
    case True
    with i q load32_flipped [OF fit assms(3), of P] show ?thesis
      by (simp add: context_words_def)
  next
    case False
    with i load32_elsewhere [OF False, where P = P and ctx = ctx] show ?thesis
      by (simp add: context_words_def flip_bit_at_def)
  qed
qed

lemma checkContext_loop_fold:
  "4 * (BCC_CONTEXT_SIZE P div 4) \<le> length ctx \<Longrightarrow> i \<le> BCC_CONTEXT_SIZE P div 4 \<Longrightarrow>
   checkContext_loop P ctx i s =
     Some (foldl (XOR) s (map (\<lambda>j. the (load32 P ctx j)) [i..<BCC_CONTEXT_SIZE P div 4]))"
proof (induction P ctx i s rule: checkContext_loop.induct)
  case (1 P ctx i csum)
  let ?n = "BCC_CONTEXT_SIZE P div 4"
  show ?case
  proof (cases "i < ?n")
    case False
    with "1.prems" have "i = ?n" by simp
    then show ?thesis by (subst checkContext_loop.simps) simp
  next
    case True
    with "1.prems" have "4 * i + 4 \<le> length ctx" by simp
    then obtain w where w: "load32 P ctx i = Some w" by (simp add: load32_def)
    from True have "Suc i \<le> ?n" by simp
    from "1.IH" [OF True w "1.prems"(1) this]
    have "checkContext_loop P ctx (Suc i) (csum XOR w) =
            Some (foldl (XOR) (csum XOR w) (map (\<lambda>j. the (load32 P ctx j)) [Suc i..<?n]))" .
    moreover from True have "[i..<?n] = i # [Suc i..<?n]" by (rule upt_conv_Cons)
    ultimately show ?thesis
      using True w by (simp add: checkContext_loop.simps [of P ctx i])
  qed
qed

lemma checkContext_eq:
  assumes "mpHeader r = Some hb" and "mpResult r = Some sc" and "mContext sc = Some ctx"
    and "4 * (BCC_CONTEXT_SIZE P div 4) \<le> length ctx"
  shows "checkContext P r =
           Some (xor_fold (context_parity_checksum (as_header P hb)) (context_words P ctx) = 0, r)"
  using assms checkContext_loop_fold [OF assms(4), of 0]
  by (simp add: checkContext_def xor_fold_def context_words_def)

text \<open>
  Claim C5. For a loaded context that holds the \<open>BCC_CONTEXT_SIZE / 4\<close> words that the
  loop reads, \<open>checkContext\<close> returns true exactly when the exclusive-or fold of these
  words, seeded with the header's parity checksum, is zero. Hence, when it returns true,
  flipping bit \<open>k\<close> of byte \<open>p\<close> of the context, for any byte among these words and
  with the header unchanged, makes it return false.
\<close>

theorem checkContext_parity:
  assumes "mpHeader r = Some hb" and "mpResult r = Some sc" and "mContext sc = Some ctx"
    and "4 * (BCC_CONTEXT_SIZE P div 4) \<le> length ctx"
  shows "checkContext P r =
           Some (xor_fold (context_parity_checksum (as_header P hb)) (context_words P ctx) = 0, r) \<and>
         (checkContext P r = Some (True, r) \<longrightarrow>
            (\<forall>p k. p < 4 * (BCC_CONTEXT_SIZE P div 4) \<and> k < 8 \<longrightarrow>
               checkContext P (with_context r (flip_bit_at ctx p k)) =
                 Some (False, with_context r (flip_bit_at ctx p k))))"
proof -
  let ?seed = "context_parity_checksum (as_header P hb)"
  have eq: "checkContext P r = Some (xor_fold ?seed (context_words P ctx) = 0, r)"
    using assms by (rule checkContext_eq)
  have "checkContext P (with_context r (flip_bit_at ctx p k)) =
          Some (False, with_context r (flip_bit_at ctx p k))"
    if ok: "checkContext P r = Some (True, r)"
      and p: "p < 4 * (BCC_CONTEXT_SIZE P div 4)" and k: "k < 8" for p k
  proof -
    let ?r' = "with_context r (flip_bit_at ctx p k)"
    from ok eq have zero: "xor_fold ?seed (context_words P ctx) = 0" by simp
    from p have q: "p div 4 < length (context_words P ctx)"
      by (simp add: context_words_def)
    from q have "foldl (XOR) ?seed
            ((context_words P ctx)[p div 4 := context_words P ctx ! (p div 4) XOR flip_mask P p k]) =
          foldl (XOR) ?seed (context_words P ctx) XOR flip_mask P p k"
      by (rule xor_fold_update)
    then have "xor_fold ?seed (context_words P (flip_bit_at ctx p k)) =
            xor_fold ?seed (context_words P ctx) XOR flip_mask P p k"
      by (simp only: xor_fold_def context_words_flipped [OF assms(4) p k])
    with zero flip_mask_nonzero [OF k, of P p]
    have nz: "xor_fold ?seed (context_words P (flip_bit_at ctx p k)) \<noteq> 0" by simp
    have "checkContext P ?r' =
            Some (xor_fold ?seed (context_words P (flip_bit_at ctx p k)) = 0, ?r')"
    proof (rule checkContext_eq)
      show "mpHeader ?r' = Some hb" using assms(1) by (simp add: with_context_def)
      show "mpResult ?r' = Some (sc\<lparr>mContext := Some (flip_bit_at ctx p k)\<rparr>)"
        using assms(2) by (simp add: with_context_def)
      show "mContext (sc\<lparr>mContext := Some (flip_bit_at ctx p k)\<rparr>) = Some (flip_bit_at ctx p k)"
        by simp
      show "4 * (BCC_CONTEXT_SIZE P div 4) \<le> length (flip_bit_at ctx p k)"
        using assms(4) by (simp add: flip_bit_at_def)
    qed
    with nz show ?thesis by simp
  qed
  with eq show ?thesis by blast
qed

theorem checkContext_parity_witness:
  "4 * (BCC_CONTEXT_SIZE ilp32 div 4) \<le> length demo_context \<and>
   checkContext ilp32
     ((demo_reader (demo_file good_image))
        \<lparr>mpHeader := Some (demo_header 101 192 16),
         mpResult := Some (new_ScriptCached\<lparr>mContext := Some demo_context\<rparr>)\<rparr>) =
     Some (True, (demo_reader (demo_file good_image))
        \<lparr>mpHeader := Some (demo_header 101 192 16),
         mpResult := Some (new_ScriptCached\<lparr>mContext := Some demo_context\<rparr>)\<rparr>) \<and>
   checkContext ilp32
     (with_context ((demo_reader (demo_file good_image))
        \<lparr>mpHeader := Some (demo_header 101 192 16),
         mpResult := Some (new_ScriptCached\<lparr>mContext := Some demo_context\<rparr>)\<rparr>)
        (flip_bit_at demo_context 5 3)) =
     Some (False, with_context ((demo_reader (demo_file good_image))
        \<lparr>mpHeader := Some (demo_header 101 192 16),
         mpResult := Some (new_ScriptCached\<lparr>mContext := Some demo_context\<rparr>)\<rparr>)
        (flip_bit_at demo_context 5 3))"
proof -
  let ?R = "(demo_reader (demo_file good_image))
        \<lparr>mpHeader := Some (demo_header 101 192 16),
         mpResult := Some (new_ScriptCached\<lparr>mContext := Some demo_context\<rparr>)\<rparr>"
  have len: "4 * (BCC_CONTEXT_SIZE ilp32 div 4) \<le> length demo_context"
    by (simp add: ilp32_def demo_context_def)
  have zero: "xor_fold (context_parity_checksum (as_header ilp32 (demo_header 101 192 16)))
                (context_words ilp32 demo_context) = 0"
    by (simp add: xor_fold_def context_words_def load32_def word32_def ilp32_defs
        demo_header_def demo_context_def upt_rec [of _ "numeral n" for n])
  have pk: "(5::nat) < 4 * (BCC_CONTEXT_SIZE ilp32 div 4) \<and> (3::nat) < 8"
    by (simp add: ilp32_def)
  have h: "mpHeader ?R = Some (demo_header 101 192 16)"
    "mpResult ?R = Some (new_ScriptCached\<lparr>mContext := Some demo_context\<rparr>)"
    "mContext (new_ScriptCached\<lparr>mContext := Some demo_context\<rparr>) = Some demo_context"
    by simp_all
  from checkContext_parity [OF h len] zero pk len show ?thesis by simp
qed

lemma readStringPool_loop_pointers:
  "readStringPool_loop P raw n i pool = Some pool' \<Longrightarrow> i \<le> n \<Longrightarrow>
   pool' = pool @ map (\<lambda>j. str_offset (the (as_string P raw j))) [i..<n]"
proof (induction P raw n i pool rule: readStringPool_loop.induct)
  case (1 P raw n i pool)
  show ?case
  proof (cases "i < n")
    case False
    with "1.prems" have "i = n" by simp
    with "1.prems"(1) show ?thesis by (subst (asm) readStringPool_loop.simps) simp
  next
    case True
    with "1.prems"(1) obtain s where s: "as_string P raw i = Some s"
      and rest: "readStringPool_loop P raw n (Suc i) (pool @ [str_offset s]) = Some pool'"
      by (subst (asm) readStringPool_loop.simps) (auto split: option.splits)
    from True have "Suc i \<le> n" by simp
    from "1.IH" [OF True s rest this]
    have "pool' = (pool @ [str_offset s]) @
            map (\<lambda>j. str_offset (the (as_string P raw j))) [Suc i..<n]" .
    moreover from True have "[i..<n] = i # [Suc i..<n]" by (rule upt_conv_Cons)
    ultimately show ?thesis using s by simp
  qed
qed

lemma checkStringPool_loop_step:
  assumes "i < n" and "terminator P raw i = Some c"
  shows "checkStringPool_loop P raw (pool_pointers P raw n) n i =
           (if c \<noteq> 0 then Some (Unterminated i)
            else checkStringPool_loop P raw (pool_pointers P raw n) n (Suc i))"
proof -
  from assms(2) obtain s where s: "as_string P raw i = Some s"
    and b: "byte_at raw (str_offset s + int (str_length s)) = Some c"
    by (auto simp: terminator_def split: option.splits)
  from assms(1) s have v: "vec_at (pool_pointers P raw n) i = Some (str_offset s)"
    by (simp add: vec_at_def pool_pointers_def)
  show ?thesis
    using assms(1) s b v by (subst checkStringPool_loop.simps) simp
qed

lemma checkStringPool_loop_unterminated:
  "i \<le> m \<Longrightarrow> m < n \<Longrightarrow> (\<forall>j. i \<le> j \<and> j < m \<longrightarrow> terminator P raw j = Some 0) \<Longrightarrow>
   terminator P raw m = Some c \<Longrightarrow> c \<noteq> 0 \<Longrightarrow>
   checkStringPool_loop P raw (pool_pointers P raw n) n i = Some (Unterminated m)"
proof (induction "m - i" arbitrary: i)
  case 0
  then have "i = m" by simp
  with 0 show ?case by (simp add: checkStringPool_loop_step)
next
  case (Suc d)
  then have lt: "i < m" by simp
  with Suc.prems have t: "terminator P raw i = Some 0" by simp
  from lt Suc.prems have "i < n" by simp
  from checkStringPool_loop_step [OF this t]
  have "checkStringPool_loop P raw (pool_pointers P raw n) n i =
          checkStringPool_loop P raw (pool_pointers P raw n) n (Suc i)" by simp
  moreover have "checkStringPool_loop P raw (pool_pointers P raw n) n (Suc i) =
          Some (Unterminated m)"
  proof (rule Suc.hyps(1))
    show "d = m - Suc i" using Suc.hyps(2) by simp
    show "Suc i \<le> m" using lt by simp
    show "m < n" by (rule Suc.prems(2))
    show "\<forall>j. Suc i \<le> j \<and> j < m \<longrightarrow> terminator P raw j = Some 0"
      using Suc.prems(3) by simp
    show "terminator P raw m = Some c" by (rule Suc.prems(4))
    show "c \<noteq> 0" by (rule Suc.prems(5))
  qed
  ultimately show ?case by simp
qed

lemma checkStringPool_loop_terminated:
  "i \<le> n \<Longrightarrow> (\<forall>j. i \<le> j \<and> j < n \<longrightarrow> terminator P raw j = Some 0) \<Longrightarrow>
   checkStringPool_loop P raw (pool_pointers P raw n) n i = Some Terminated"
proof (induction "n - i" arbitrary: i)
  case 0
  then have "i = n" by simp
  then show ?case by (subst checkStringPool_loop.simps) simp
next
  case (Suc d)
  then have lt: "i < n" by simp
  with Suc.prems have t: "terminator P raw i = Some 0" by simp
  from checkStringPool_loop_step [OF lt t]
  have "checkStringPool_loop P raw (pool_pointers P raw n) n i =
          checkStringPool_loop P raw (pool_pointers P raw n) n (Suc i)" by simp
  moreover have "checkStringPool_loop P raw (pool_pointers P raw n) n (Suc i) = Some Terminated"
  proof (rule Suc.hyps(1))
    show "d = n - Suc i" using Suc.hyps(2) by simp
    show "Suc i \<le> n" using lt by simp
    show "\<forall>j. Suc i \<le> j \<and> j < n \<longrightarrow> terminator P raw j = Some 0"
      using Suc.prems(2) by simp
  qed
  ultimately show ?case by simp
qed

text \<open>
  Claim C6. On the pool that \<open>readStringPool\<close> has built (the pointers of the first
  \<open>count\<close> entries), \<open>checkStringPool\<close> succeeds when the byte at \<open>offset + length\<close>
  of every entry is \<open>0\<close>; it fails when some entry's byte is not \<open>0\<close>, and the index
  it reports is the first such entry (all entries before it are terminated); and it fails
  only if some entry is not terminated by a \<open>0\<close> in the section.
\<close>

theorem checkStringPool_terminators:
  assumes "mpResult r = Some sc" and "mpStringPoolRaw sc = Some raw"
    and "as_count P raw = Some n" and "mStringPool sc = pool_pointers P raw n"
  shows "((\<forall>i<n. terminator P raw i = Some 0) \<longrightarrow>
            checkStringPool P r = Some (True, r) \<and>
            checkStringPool_scan P r = Some Terminated) \<and>
         (\<forall>i<n. (\<forall>j<i. terminator P raw j = Some 0) \<and>
                 (\<exists>c. terminator P raw i = Some c \<and> c \<noteq> 0) \<longrightarrow>
            checkStringPool P r = Some (False, r) \<and>
            checkStringPool_scan P r = Some (Unterminated i)) \<and>
         (checkStringPool P r = Some (False, r) \<longrightarrow>
            (\<exists>i<n. terminator P raw i \<noteq> Some 0))"
proof -
  have scan: "checkStringPool_scan P r =
                checkStringPool_loop P raw (pool_pointers P raw n) n 0"
    using assms by (simp add: checkStringPool_scan_def)
  have ok: "checkStringPool_scan P r = Some Terminated"
    if "\<forall>i<n. terminator P raw i = Some 0"
    using that unfolding scan by (intro checkStringPool_loop_terminated) simp_all
  have bad: "checkStringPool_scan P r = Some (Unterminated i)"
    if "i < n" "\<forall>j<i. terminator P raw j = Some 0" "terminator P raw i = Some c" "c \<noteq> 0"
    for i c
    unfolding scan
  proof (rule checkStringPool_loop_unterminated)
    show "0 \<le> i" by simp
    show "i < n" by (rule that(1))
    show "\<forall>j. 0 \<le> j \<and> j < i \<longrightarrow> terminator P raw j = Some 0" using that(2) by simp
    show "terminator P raw i = Some c" by (rule that(3))
    show "c \<noteq> 0" by (rule that(4))
  qed
  have 1: "(\<forall>i<n. terminator P raw i = Some 0) \<longrightarrow>
            checkStringPool P r = Some (True, r) \<and> checkStringPool_scan P r = Some Terminated"
    using ok by (simp add: checkStringPool_def)
  have 2: "\<forall>i<n. (\<forall>j<i. terminator P raw j = Some 0) \<and>
                 (\<exists>c. terminator P raw i = Some c \<and> c \<noteq> 0) \<longrightarrow>
            checkStringPool P r = Some (False, r) \<and>
            checkStringPool_scan P r = Some (Unterminated i)"
    using bad by (auto simp: checkStringPool_def)
  have 3: "checkStringPool P r = Some (False, r) \<longrightarrow> (\<exists>i<n. terminator P raw i \<noteq> Some 0)"
  proof
    assume f: "checkStringPool P r = Some (False, r)"
    show "\<exists>i<n. terminator P raw i \<noteq> Some 0"
    proof (rule ccontr)
      assume "\<not> (\<exists>i<n. terminator P raw i \<noteq> Some 0)"
      then have "\<forall>i<n. terminator P raw i = Some 0" by blast
      with 1 have "checkStringPool P r = Some (True, r)" by blast
      with f show False by simp
    qed
  qed
  from 1 2 3 show ?thesis by blast
qed

theorem checkStringPool_terminators_witness:
  "pool_pointers ilp32 demo_str_pool 2 = [20, 27] \<and>
   terminator ilp32 demo_str_pool 0 = Some 0 \<and> terminator ilp32 demo_str_pool 1 = Some 0 \<and>
   checkStringPool ilp32
     ((demo_reader (demo_file good_image))
        \<lparr>mpResult := Some (new_ScriptCached
             \<lparr>mpStringPoolRaw := Some demo_str_pool, mStringPool := [20, 27]\<rparr>)\<rparr>) =
     Some (True, (demo_reader (demo_file good_image))
        \<lparr>mpResult := Some (new_ScriptCached
             \<lparr>mpStringPoolRaw := Some demo_str_pool, mStringPool := [20, 27]\<rparr>)\<rparr>) \<and>
   terminator ilp32 unterminated_str_pool 1 = Some 33 \<and>
   checkStringPool_scan ilp32
     ((demo_reader (demo_file good_image))
        \<lparr>mpResult := Some (new_ScriptCached
             \<lparr>mpStringPoolRaw := Some unterminated_str_pool, mStringPool := [20, 27]\<rparr>)\<rparr>) =
     Some (Unterminated 1) \<and>
   checkStringPool ilp32
     ((demo_reader (demo_file good_image))
        \<lparr>mpResult := Some (new_ScriptCached
             \<lparr>mpStringPoolRaw := Some unterminated_str_pool, mStringPool := [20, 27]\<rparr>)\<rparr>) =
     Some (False, (demo_reader (demo_file good_image))
        \<lparr>mpResult := Some (new_ScriptCached
             \<lparr>mpStringPoolRaw := Some unterminated_str_pool, mStringPool := [20, 27]\<rparr>)\<rparr>)"
proof -
  let ?G = "(demo_reader (demo_file good_image))
        \<lparr>mpResult := Some (new_ScriptCached
             \<lparr>mpStringPoolRaw := Some demo_str_pool, mStringPool := [20, 27]\<rparr>)\<rparr>"
  let ?B = "(demo_reader (demo_file good_image))
        \<lparr>mpResult := Some (new_ScriptCached
             \<lparr>mpStringPoolRaw := Some unterminated_str_pool, mStringPool := [20, 27]\<rparr>)\<rparr>"
  have two: "[0..<2] = [0, Suc 0]" by (simp add: upt_rec)
  have cnt: "as_count ilp32 demo_str_pool = Some 2" "as_count ilp32 unterminated_str_pool = Some 2"
    by (simp_all add: ilp32_defs demo_str_pool_def unterminated_str_pool_def)
  have pg: "pool_pointers ilp32 demo_str_pool 2 = [20, 27]"
    by (simp add: pool_pointers_def two ilp32_defs demo_str_pool_def)
  have pb: "pool_pointers ilp32 unterminated_str_pool 2 = [20, 27]"
    by (simp add: pool_pointers_def two ilp32_defs unterminated_str_pool_def)
  have tg: "terminator ilp32 demo_str_pool 0 = Some 0" "terminator ilp32 demo_str_pool 1 = Some 0"
    by (simp_all add: terminator_def byte_at_def ilp32_defs demo_str_pool_def)
  have tb: "terminator ilp32 unterminated_str_pool 0 = Some 0"
    "terminator ilp32 unterminated_str_pool 1 = Some 33"
    by (simp_all add: terminator_def byte_at_def ilp32_defs unterminated_str_pool_def)
  have allg: "\<forall>i<2. terminator ilp32 demo_str_pool i = Some 0"
    using tg by (auto simp: less_Suc_eq numeral_2_eq_2)
  have firstb: "(1::nat) < 2 \<and> (\<forall>j<1. terminator ilp32 unterminated_str_pool j = Some 0) \<and>
      (\<exists>c. terminator ilp32 unterminated_str_pool 1 = Some c \<and> c \<noteq> 0)"
    using tb by simp
  let ?scG = "new_ScriptCached\<lparr>mpStringPoolRaw := Some demo_str_pool, mStringPool := [20, 27]\<rparr>"
  let ?scB = "new_ScriptCached
                \<lparr>mpStringPoolRaw := Some unterminated_str_pool, mStringPool := [20, 27]\<rparr>"
  have hG: "mpResult ?G = Some ?scG" "mpStringPoolRaw ?scG = Some demo_str_pool"
    "mStringPool ?scG = pool_pointers ilp32 demo_str_pool 2"
    by (simp_all add: pg)
  have hB: "mpResult ?B = Some ?scB" "mpStringPoolRaw ?scB = Some unterminated_str_pool"
    "mStringPool ?scB = pool_pointers ilp32 unterminated_str_pool 2"
    by (simp_all add: pb)
  from checkStringPool_terminators [OF hG(1,2) cnt(1) hG(3)] allg
  have g: "checkStringPool ilp32 ?G = Some (True, ?G)" by blast
  from checkStringPool_terminators [OF hB(1,2) cnt(2) hB(3)] firstb
  have b: "checkStringPool ilp32 ?B = Some (False, ?B) \<and>
           checkStringPool_scan ilp32 ?B = Some (Unterminated 1)" by blast
  from pg tg tb g b show ?thesis by simp
qed

lemma checkDependency_loop_step:
  assumes "i < n" and "length deps = n" and "cached_name P tab raw strPool i = Some nm"
  shows "checkDependency_loop P tab raw strPool n i (drop i deps) =
           (if dependency_matches P tab raw strPool i (deps ! i)
            then checkDependency_loop P tab raw strPool n (Suc i) (drop (Suc i) deps)
            else Some False)"
proof -
  from assms(3) obtain c p where c: "as_dependency P tab i = Some c"
    and p: "vec_at strPool (res_name_strp_index c) = Some p" and s: "c_str raw p = Some nm"
    by (auto simp: cached_name_def split: option.splits)
  obtain depName depType depSHA1 where d: "deps ! i = (depName, (depType, depSHA1))"
    by (cases "deps ! i") auto
  from assms(1,2) have dr: "drop i deps = (depName, (depType, depSHA1)) # drop (Suc i) deps"
    using d by (simp add: Cons_nth_drop_Suc [symmetric])
  have m: "dependency_matches P tab raw strPool i (deps ! i) \<longleftrightarrow>
        depName = nm \<and> memcmp depSHA1 (sha1 c) 20 \<and> depType = res_type c"
    using c assms(3) d by (auto simp: dependency_matches_def memcmp_def)
  show ?thesis
    unfolding m
    by (subst checkDependency_loop.simps) (simp add: assms(1) dr c p s)
qed

lemma matches_readable:
  "dependency_matches P tab raw strPool i d \<Longrightarrow> cached_name P tab raw strPool i = Some (fst d)"
  by (auto simp: dependency_matches_def split: option.splits)

lemma checkDependency_loop_all_match:
  "i \<le> n \<Longrightarrow> length deps = n \<Longrightarrow>
   (\<forall>j. i \<le> j \<and> j < n \<longrightarrow> dependency_matches P tab raw strPool j (deps ! j)) \<Longrightarrow>
   checkDependency_loop P tab raw strPool n i (drop i deps) = Some True"
proof (induction "n - i" arbitrary: i)
  case 0
  then have "i = n" by simp
  then show ?case by (subst checkDependency_loop.simps) simp
next
  case (Suc d)
  then have lt: "i < n" by simp
  with Suc.prems have m: "dependency_matches P tab raw strPool i (deps ! i)" by simp
  have "checkDependency_loop P tab raw strPool n (Suc i) (drop (Suc i) deps) = Some True"
  proof (rule Suc.hyps(1))
    show "d = n - Suc i" using Suc.hyps(2) by simp
    show "Suc i \<le> n" using lt by simp
    show "length deps = n" by (rule Suc.prems(2))
    show "\<forall>j. Suc i \<le> j \<and> j < n \<longrightarrow> dependency_matches P tab raw strPool j (deps ! j)"
      using Suc.prems(3) by simp
  qed
  with checkDependency_loop_step [OF lt Suc.prems(2) matches_readable [OF m]] m
  show ?case by simp
qed

lemma checkDependency_loop_first_mismatch:
  "i \<le> m \<Longrightarrow> m < n \<Longrightarrow> length deps = n \<Longrightarrow>
   (\<forall>j. i \<le> j \<and> j < m \<longrightarrow> dependency_matches P tab raw strPool j (deps ! j)) \<Longrightarrow>
   cached_name P tab raw strPool m = Some nm \<Longrightarrow>
   \<not> dependency_matches P tab raw strPool m (deps ! m) \<Longrightarrow>
   checkDependency_loop P tab raw strPool n i (drop i deps) = Some False"
proof (induction "m - i" arbitrary: i)
  case 0
  then have "i = m" by simp
  with 0 checkDependency_loop_step [of m n deps P tab raw strPool nm] show ?case by simp
next
  case (Suc d)
  then have lt: "i < m" by simp
  with Suc.prems have mi: "dependency_matches P tab raw strPool i (deps ! i)" by simp
  from lt Suc.prems have "i < n" by simp
  note step = checkDependency_loop_step [OF this Suc.prems(3) matches_readable [OF mi]]
  have "checkDependency_loop P tab raw strPool n (Suc i) (drop (Suc i) deps) = Some False"
  proof (rule Suc.hyps(1))
    show "d = m - Suc i" using Suc.hyps(2) by simp
    show "Suc i \<le> m" using lt by simp
    show "m < n" by (rule Suc.prems(2))
    show "length deps = n" by (rule Suc.prems(3))
    show "\<forall>j. Suc i \<le> j \<and> j < m \<longrightarrow> dependency_matches P tab raw strPool j (deps ! j)"
      using Suc.prems(4) by simp
    show "cached_name P tab raw strPool m = Some nm" by (rule Suc.prems(5))
    show "\<not> dependency_matches P tab raw strPool m (deps ! m)" by (rule Suc.prems(6))
  qed
  with step mi show ?case by simp
qed

lemma checkDependency_loop_readable:
  assumes "i < n" and "length deps = n"
    and "checkDependency_loop P tab raw strPool n i (drop i deps) = Some b"
  shows "\<exists>nm. cached_name P tab raw strPool i = Some nm"
proof -
  from assms(1,2) have dr: "drop i deps = deps ! i # drop (Suc i) deps"
    by (simp add: Cons_nth_drop_Suc)
  from assms(3) show ?thesis
    unfolding dr
    by (subst (asm) checkDependency_loop.simps)
       (auto simp: assms(1) cached_name_def split: option.splits prod.splits)
qed

lemma checkDependency_loop_true:
  "i \<le> n \<Longrightarrow> length deps = n \<Longrightarrow>
   checkDependency_loop P tab raw strPool n i (drop i deps) = Some True \<Longrightarrow>
   (\<forall>j. i \<le> j \<and> j < n \<longrightarrow> dependency_matches P tab raw strPool j (deps ! j))"
proof (induction "n - i" arbitrary: i)
  case 0
  then have "n \<le> i" by simp
  then show ?case by auto
next
  case (Suc d)
  then have lt: "i < n" by simp
  from checkDependency_loop_readable [OF lt Suc.prems(2,3)]
  obtain nm where nm: "cached_name P tab raw strPool i = Some nm" by blast
  from checkDependency_loop_step [OF lt Suc.prems(2) nm] Suc.prems(3)
  have mi: "dependency_matches P tab raw strPool i (deps ! i)"
    and rest: "checkDependency_loop P tab raw strPool n (Suc i) (drop (Suc i) deps) = Some True"
    by (simp_all split: if_splits)
  have "\<forall>j. Suc i \<le> j \<and> j < n \<longrightarrow> dependency_matches P tab raw strPool j (deps ! j)"
  proof (rule Suc.hyps(1))
    show "d = n - Suc i" using Suc.hyps(2) by simp
    show "Suc i \<le> n" using lt by simp
    show "length deps = n" by (rule Suc.prems(2))
    show "checkDependency_loop P tab raw strPool n (Suc i) (drop (Suc i) deps) = Some True"
      by (rule rest)
  qed
  then have "dependency_matches P tab raw strPool j (deps ! j)" if "i \<le> j" "j < n" for j
    using that mi by (cases "j = i") simp_all
  then show ?case by blast
qed

text \<open>
  Claim C4. \<open>checkDependency\<close> compares the cached table with the expected
  dependencies, which the reader holds in ascending order of their names, record \<open>i\<close>
  against entry \<open>i\<close>. It returns false when the two counts differ. With equal counts it
  returns true when every record matches its entry (the name behind the record's pool
  index equals the expected name, the first 20 bytes of the fingerprints are equal, the
  types are equal), and it returns true only then. The first record that does not match
  ends the check with false, whatever the records after it hold.
\<close>

theorem checkDependency_lockstep:
  assumes "mpCachedDependTable r = Some tab" and "as_count P tab = Some n"
    and "mpResult r = Some sc"
  shows "(length (mDependencies r) \<noteq> n \<longrightarrow> checkDependency P r = Some (False, r)) \<and>
         (length (mDependencies r) = n \<and>
          (\<forall>i<n. dependency_matches P tab (pool_buffer sc) (mStringPool sc) i
                    (mDependencies r ! i)) \<longrightarrow>
            checkDependency P r = Some (True, r)) \<and>
         (length (mDependencies r) = n \<longrightarrow>
            (\<forall>i<n. (\<forall>j<i. dependency_matches P tab (pool_buffer sc) (mStringPool sc) j
                             (mDependencies r ! j)) \<and>
                    cached_name P tab (pool_buffer sc) (mStringPool sc) i \<noteq> None \<and>
                    \<not> dependency_matches P tab (pool_buffer sc) (mStringPool sc) i
                        (mDependencies r ! i) \<longrightarrow>
               checkDependency P r = Some (False, r))) \<and>
         (checkDependency P r = Some (True, r) \<longrightarrow>
            length (mDependencies r) = n \<and>
            (\<forall>i<n. dependency_matches P tab (pool_buffer sc) (mStringPool sc) i
                      (mDependencies r ! i)))"
proof -
  let ?deps = "mDependencies r"
  let ?loop = "checkDependency_loop P tab (pool_buffer sc) (mStringPool sc) n 0 ?deps"
  have differ: "checkDependency P r = Some (False, r)" if "length ?deps \<noteq> n"
    using that assms by (simp add: checkDependency_def)
  have same: "checkDependency P r = map_option (\<lambda>ok. (ok, r)) ?loop" if "length ?deps = n"
    using that assms by (simp add: checkDependency_def)
  have all: "checkDependency P r = Some (True, r)"
    if len: "length ?deps = n"
      and m: "\<forall>i<n. dependency_matches P tab (pool_buffer sc) (mStringPool sc) i (?deps ! i)"
  proof -
    have "checkDependency_loop P tab (pool_buffer sc) (mStringPool sc) n 0 (drop 0 ?deps) =
            Some True"
      using len m by (intro checkDependency_loop_all_match) simp_all
    then show ?thesis by (simp add: same [OF len])
  qed
  have first: "checkDependency P r = Some (False, r)"
    if len: "length ?deps = n" and i: "i < n"
      and before: "\<forall>j<i. dependency_matches P tab (pool_buffer sc) (mStringPool sc) j (?deps ! j)"
      and readable: "cached_name P tab (pool_buffer sc) (mStringPool sc) i \<noteq> None"
      and differs: "\<not> dependency_matches P tab (pool_buffer sc) (mStringPool sc) i (?deps ! i)"
    for i
  proof -
    from readable obtain nm
      where nm: "cached_name P tab (pool_buffer sc) (mStringPool sc) i = Some nm" by auto
    have "checkDependency_loop P tab (pool_buffer sc) (mStringPool sc) n 0 (drop 0 ?deps) =
            Some False"
    proof (rule checkDependency_loop_first_mismatch [where m = i])
      show "0 \<le> i" by simp
      show "i < n" by (rule i)
      show "length ?deps = n" by (rule len)
      show "\<forall>j. 0 \<le> j \<and> j < i \<longrightarrow>
              dependency_matches P tab (pool_buffer sc) (mStringPool sc) j (?deps ! j)"
        using before by simp
      show "cached_name P tab (pool_buffer sc) (mStringPool sc) i = Some nm" by (rule nm)
      show "\<not> dependency_matches P tab (pool_buffer sc) (mStringPool sc) i (?deps ! i)"
        by (rule differs)
    qed
    then show ?thesis by (simp add: same [OF len])
  qed
  have only: "length ?deps = n \<and>
      (\<forall>i<n. dependency_matches P tab (pool_buffer sc) (mStringPool sc) i (?deps ! i))"
    if ok: "checkDependency P r = Some (True, r)"
  proof -
    have len: "length ?deps = n"
    proof (rule ccontr)
      assume "length ?deps \<noteq> n"
      from differ [OF this] ok show False by simp
    qed
    with ok have "checkDependency_loop P tab (pool_buffer sc) (mStringPool sc) n 0 (drop 0 ?deps) =
        Some True"
      by (auto simp: same)
    from checkDependency_loop_true [OF _ len this] len show ?thesis by simp
  qed
  from differ all first only show ?thesis by blast
qed

theorem checkDependency_lockstep_witness:
  "dependency_matches ilp32 (demo_depend_tab 0) demo_str_pool [20, 27] 0
     ([102, 111, 111, 46, 114, 115], (1, demo_sha1)) \<and>
   checkDependency ilp32
     ((demo_reader (demo_file good_image))
        \<lparr>mpCachedDependTable := Some (demo_depend_tab 0),
         mpResult := Some (new_ScriptCached
             \<lparr>mpStringPoolRaw := Some demo_str_pool, mStringPool := [20, 27]\<rparr>)\<rparr>) =
     Some (True, (demo_reader (demo_file good_image))
        \<lparr>mpCachedDependTable := Some (demo_depend_tab 0),
         mpResult := Some (new_ScriptCached
             \<lparr>mpStringPoolRaw := Some demo_str_pool, mStringPool := [20, 27]\<rparr>)\<rparr>) \<and>
   cached_name ilp32 (demo_depend_tab 0) demo_str_pool [20, 27] 0 =
     Some [102, 111, 111, 46, 114, 115] \<and>
   \<not> dependency_matches ilp32 (demo_depend_tab 0) demo_str_pool [20, 27] 0
       ([102, 111, 111, 46, 114, 115], (2, demo_sha1)) \<and>
   checkDependency ilp32
     ((demo_reader (demo_file good_image))
        \<lparr>mpCachedDependTable := Some (demo_depend_tab 0),
         mpResult := Some (new_ScriptCached
             \<lparr>mpStringPoolRaw := Some demo_str_pool, mStringPool := [20, 27]\<rparr>),
         mDependencies := [([102, 111, 111, 46, 114, 115], (2, demo_sha1))]\<rparr>) =
     Some (False, (demo_reader (demo_file good_image))
        \<lparr>mpCachedDependTable := Some (demo_depend_tab 0),
         mpResult := Some (new_ScriptCached
             \<lparr>mpStringPoolRaw := Some demo_str_pool, mStringPool := [20, 27]\<rparr>),
         mDependencies := [([102, 111, 111, 46, 114, 115], (2, demo_sha1))]\<rparr>) \<and>
   checkDependency ilp32
     ((demo_reader (demo_file good_image))
        \<lparr>mpCachedDependTable := Some (demo_depend_tab 0),
         mpResult := Some (new_ScriptCached
             \<lparr>mpStringPoolRaw := Some demo_str_pool, mStringPool := [20, 27]\<rparr>),
         mDependencies := []\<rparr>) =
     Some (False, (demo_reader (demo_file good_image))
        \<lparr>mpCachedDependTable := Some (demo_depend_tab 0),
         mpResult := Some (new_ScriptCached
             \<lparr>mpStringPoolRaw := Some demo_str_pool, mStringPool := [20, 27]\<rparr>),
         mDependencies := []\<rparr>)"
proof -
  let ?sc = "new_ScriptCached\<lparr>mpStringPoolRaw := Some demo_str_pool, mStringPool := [20, 27]\<rparr>"
  let ?R = "(demo_reader (demo_file good_image))
        \<lparr>mpCachedDependTable := Some (demo_depend_tab 0), mpResult := Some ?sc\<rparr>"
  let ?Rb = "(demo_reader (demo_file good_image))
        \<lparr>mpCachedDependTable := Some (demo_depend_tab 0), mpResult := Some ?sc,
         mDependencies := [([102, 111, 111, 46, 114, 115], (2, demo_sha1))]\<rparr>"
  let ?Rc = "(demo_reader (demo_file good_image))
        \<lparr>mpCachedDependTable := Some (demo_depend_tab 0), mpResult := Some ?sc,
         mDependencies := []\<rparr>"
  have cnt: "as_count ilp32 (demo_depend_tab 0) = Some 1"
    by (simp add: ilp32_defs demo_depend_tab_def demo_sha1_def)
  have buf: "pool_buffer ?sc = demo_str_pool" "mStringPool ?sc = [20, 27]"
    by (simp_all add: pool_buffer_def)
  have nm: "cached_name ilp32 (demo_depend_tab 0) demo_str_pool [20, 27] 0 =
      Some [102, 111, 111, 46, 114, 115]"
    by (simp add: cached_name_def vec_at_def c_str_def
        ilp32_defs demo_depend_tab_def demo_sha1_def demo_str_pool_def)
  have dep: "as_dependency ilp32 (demo_depend_tab 0) 0 =
      Some \<lparr>res_name_strp_index = 0, res_type = 1, sha1 = demo_sha1\<rparr>"
    by (simp add: ilp32_defs demo_depend_tab_def demo_sha1_def)
  have yes: "dependency_matches ilp32 (demo_depend_tab 0) demo_str_pool [20, 27] 0
      ([102, 111, 111, 46, 114, 115], (1, demo_sha1))"
    by (simp add: dependency_matches_def nm dep)
  have no: "\<not> dependency_matches ilp32 (demo_depend_tab 0) demo_str_pool [20, 27] 0
      ([102, 111, 111, 46, 114, 115], (2, demo_sha1))"
    by (simp add: dependency_matches_def nm dep)
  have h: "mpCachedDependTable ?R = Some (demo_depend_tab 0)" "mpResult ?R = Some ?sc"
    by simp_all
  have hd: "mDependencies ?R = [([102, 111, 111, 46, 114, 115], (1, demo_sha1))]"
    by (simp add: demo_reader_def)
  have h2: "mpCachedDependTable ?Rb = Some (demo_depend_tab 0)" "mpResult ?Rb = Some ?sc"
    "mDependencies ?Rb = [([102, 111, 111, 46, 114, 115], (2, demo_sha1))]"
    by simp_all
  have h0: "mpCachedDependTable ?Rc = Some (demo_depend_tab 0)" "mpResult ?Rc = Some ?sc"
    "mDependencies ?Rc = []"
    by simp_all
  have pre: "length (mDependencies ?R) = 1 \<and>
      (\<forall>i<1. dependency_matches ilp32 (demo_depend_tab 0) (pool_buffer ?sc) (mStringPool ?sc) i
                 (mDependencies ?R ! i))"
    using yes by (simp add: hd buf)
  have pre2: "(0::nat) < 1 \<and>
      (\<forall>j<0. dependency_matches ilp32 (demo_depend_tab 0) (pool_buffer ?sc) (mStringPool ?sc) j
                 (mDependencies ?Rb ! j)) \<and>
      cached_name ilp32 (demo_depend_tab 0) (pool_buffer ?sc) (mStringPool ?sc) 0 \<noteq> None \<and>
      \<not> dependency_matches ilp32 (demo_depend_tab 0) (pool_buffer ?sc) (mStringPool ?sc) 0
          (mDependencies ?Rb ! 0)"
    using no nm by (simp add: h2 buf)
  have len2: "length (mDependencies ?Rb) = 1" by simp
  have len0: "length (mDependencies ?Rc) \<noteq> 1" by simp
  from checkDependency_lockstep [OF h(1) cnt h(2)] pre
  have 1: "checkDependency ilp32 ?R = Some (True, ?R)" by blast
  from checkDependency_lockstep [OF h2(1) cnt h2(2)] pre2 len2
  have 2: "checkDependency ilp32 ?Rb = Some (False, ?Rb)" by blast
  from checkDependency_lockstep [OF h0(1) cnt h0(2)] len0
  have 3: "checkDependency ilp32 ?Rc = Some (False, ?Rc)" by blast
  from yes 1 nm no 2 3 show ?thesis by blast
qed

lemma readFuncTable_loop_step:
  assumes "i < n" and "readFuncTable_loop P tab raw strPool n i t = Some t'"
  shows "\<exists>nm. func_name P tab raw strPool i = Some nm \<and>
           readFuncTable_loop P tab raw strPool n (Suc i)
             (map_insert t nm (func_entry P tab i)) = Some t'"
  using assms
  by (subst (asm) readFuncTable_loop.simps)
     (auto simp: func_name_def func_entry_def split: option.splits)

lemma readFuncTable_loop_keeps:
  "readFuncTable_loop P tab raw strPool n i t = Some t' \<Longrightarrow> t k = Some v \<Longrightarrow> t' k = Some v"
proof (induction "n - i" arbitrary: i t)
  case 0
  then have "\<not> i < n" by simp
  with 0 show ?case by (subst (asm) readFuncTable_loop.simps) simp
next
  case (Suc d)
  then have lt: "i < n" by simp
  from readFuncTable_loop_step [OF lt Suc.prems(1)]
  obtain nm where rest: "readFuncTable_loop P tab raw strPool n (Suc i)
      (map_insert t nm (func_entry P tab i)) = Some t'" by blast
  have "map_insert t nm (func_entry P tab i) k = Some v"
    using Suc.prems(2) by (cases "t nm") (auto simp: map_insert_def)
  moreover have "d = n - Suc i" using Suc.hyps(2) by simp
  ultimately show ?case using Suc.hyps(1) rest by blast
qed

lemma readFuncTable_loop_absent:
  "readFuncTable_loop P tab raw strPool n i t = Some t' \<Longrightarrow> t k = None \<Longrightarrow>
   (\<forall>j. i \<le> j \<and> j < n \<longrightarrow> func_name P tab raw strPool j \<noteq> Some k) \<Longrightarrow> t' k = None"
proof (induction "n - i" arbitrary: i t)
  case 0
  then have "\<not> i < n" by simp
  with 0 show ?case by (subst (asm) readFuncTable_loop.simps) simp
next
  case (Suc d)
  then have lt: "i < n" by simp
  from readFuncTable_loop_step [OF lt Suc.prems(1)]
  obtain nm where nm: "func_name P tab raw strPool i = Some nm"
    and rest: "readFuncTable_loop P tab raw strPool n (Suc i)
      (map_insert t nm (func_entry P tab i)) = Some t'" by blast
  from Suc.prems(3) lt nm have "nm \<noteq> k" by auto
  then have "map_insert t nm (func_entry P tab i) k = None"
    using Suc.prems(2) by (simp add: map_insert_def split: option.splits)
  moreover have "d = n - Suc i" using Suc.hyps(2) by simp
  moreover have "\<forall>j. Suc i \<le> j \<and> j < n \<longrightarrow> func_name P tab raw strPool j \<noteq> Some k"
    using Suc.prems(3) by simp
  ultimately show ?case using Suc.hyps(1) rest by blast
qed

lemma readFuncTable_loop_first:
  "readFuncTable_loop P tab raw strPool n i t = Some t' \<Longrightarrow> t k = None \<Longrightarrow>
   i \<le> j \<Longrightarrow> j < n \<Longrightarrow> func_name P tab raw strPool j = Some k \<Longrightarrow>
   (\<forall>j'. i \<le> j' \<and> j' < j \<longrightarrow> func_name P tab raw strPool j' \<noteq> Some k) \<Longrightarrow>
   t' k = Some (func_entry P tab j)"
proof (induction "j - i" arbitrary: i t)
  case 0
  then have "i = j" by simp
  with 0 have lt: "i < n" by simp
  from readFuncTable_loop_step [OF lt "0.prems"(1)]
  obtain nm where nm: "func_name P tab raw strPool i = Some nm"
    and rest: "readFuncTable_loop P tab raw strPool n (Suc i)
      (map_insert t nm (func_entry P tab i)) = Some t'" by blast
  from nm \<open>i = j\<close> "0.prems"(5) have "nm = k" by simp
  then have "map_insert t nm (func_entry P tab i) k = Some (func_entry P tab i)"
    using "0.prems"(2) by (simp add: map_insert_def)
  with rest have "t' k = Some (func_entry P tab i)" by (rule readFuncTable_loop_keeps)
  with \<open>i = j\<close> show ?case by simp
next
  case (Suc d)
  then have lt: "i < j" by simp
  with Suc.prems have ltn: "i < n" by simp
  from readFuncTable_loop_step [OF ltn Suc.prems(1)]
  obtain nm where nm: "func_name P tab raw strPool i = Some nm"
    and rest: "readFuncTable_loop P tab raw strPool n (Suc i)
      (map_insert t nm (func_entry P tab i)) = Some t'" by blast
  from Suc.prems(6) lt nm have "nm \<noteq> k" by auto
  then have none: "map_insert t nm (func_entry P tab i) k = None"
    using Suc.prems(2) by (simp add: map_insert_def split: option.splits)
  show ?case
  proof (rule Suc.hyps(1) [OF _ rest none])
    show "d = j - Suc i" using Suc.hyps(2) by simp
    show "Suc i \<le> j" using lt by simp
    show "j < n" by (rule Suc.prems(4))
    show "func_name P tab raw strPool j = Some k" by (rule Suc.prems(5))
    show "\<forall>j'. Suc i \<le> j' \<and> j' < j \<longrightarrow> func_name P tab raw strPool j' \<noteq> Some k"
      using Suc.prems(6) by simp
  qed
qed

lemma read_func_table_section:
  assumes "CACHE_READER_READ_SECTION P hold_func_table off sz r = Some (Some raw, r1)"
  shows "mpFuncTable r1 = Some raw \<and> mpResult r1 = mpResult r"
proof -
  obtain ok r0 where a: "alloc (Malloc sz) r = (ok, r0)" by (cases "alloc (Malloc sz) r")
  then have r0: "mpResult r0 = mpResult r"
    by (auto simp: alloc_def emit_def split: list.splits)
  from assms a show ?thesis
    unfolding CACHE_READER_READ_SECTION_def
    by (auto simp: hold_func_table_def emit_def Let_def r0
             split: if_splits option.splits prod.splits)
qed

lemma first_occurrence:
  assumes "func_name P tab raw strPool i = Some nm"
  shows "\<exists>j\<le>i. func_name P tab raw strPool j = Some nm \<and>
           (\<forall>j'<j. func_name P tab raw strPool j' \<noteq> Some nm)"
proof -
  let ?Q = "\<lambda>j. func_name P tab raw strPool j = Some nm"
  let ?j = "LEAST j. ?Q j"
  from assms have "?Q ?j" by (rule LeastI)
  moreover from assms have "?j \<le> i" by (rule Least_le)
  moreover have "\<forall>j'<?j. \<not> ?Q j'" using not_less_Least by blast
  ultimately show ?thesis by blast
qed

text \<open>
  Claim C9. When \<open>readFuncTable\<close> succeeds on a result object whose function map is
  empty, then for every record of the table the map, looked up at the record's name,
  yields the address and size of the first record with that name; records that repeat a
  name leave the map as it is. A name that no record has is not in the map.
\<close>

theorem readFuncTable_first_wins:
  assumes "readFuncTable P r = Some (True, r')" and "mpResult r = Some sc"
    and "mFunctions sc = Map.empty"
  shows "\<exists>tab n sc'. mpFuncTable r' = Some tab \<and> as_count P tab = Some n \<and>
           mpResult r' = Some sc' \<and>
           (\<forall>i<n. \<exists>nm j. func_name P tab (pool_buffer sc) (mStringPool sc) i = Some nm \<and>
                j \<le> i \<and> func_name P tab (pool_buffer sc) (mStringPool sc) j = Some nm \<and>
                (\<forall>j'<j. func_name P tab (pool_buffer sc) (mStringPool sc) j' \<noteq> Some nm) \<and>
                mFunctions sc' nm = Some (func_entry P tab j)) \<and>
           (\<forall>k. (\<forall>i<n. func_name P tab (pool_buffer sc) (mStringPool sc) i \<noteq> Some k) \<longrightarrow>
                mFunctions sc' k = None)"
proof -
  from assms(1) obtain hb where hb: "mpHeader r = Some hb"
    by (auto simp: readFuncTable_def split: option.splits)
  let ?off = "func_table_offset (as_header P hb)" and ?sz = "func_table_size (as_header P hb)"
  from assms(1) hb obtain tab r1
    where rd: "CACHE_READER_READ_SECTION P hold_func_table ?off ?sz r = Some (Some tab, r1)"
    by (auto simp: readFuncTable_def split: option.splits prod.splits)
  from read_func_table_section [OF rd] assms(2)
  have r1: "mpFuncTable r1 = Some tab" "mpResult r1 = Some sc" by simp_all
  from assms(1) hb rd r1 obtain n tbl
    where n: "as_count P tab = Some n"
      and loop: "readFuncTable_loop P tab (pool_buffer sc) (mStringPool sc) n 0 (mFunctions sc) =
                  Some tbl"
      and r': "r' = r1\<lparr>mpResult := Some (sc\<lparr>mFunctions := tbl\<rparr>)\<rparr>"
    by (auto simp: readFuncTable_def split: option.splits)
  let ?name = "func_name P tab (pool_buffer sc) (mStringPool sc)"
  have readable: "\<exists>nm. ?name i = Some nm" if "i < n" for i
  proof (rule ccontr)
    assume "\<not> (\<exists>nm. ?name i = Some nm)"
    then have none: "?name i = None" by simp
    have "readFuncTable_loop P tab (pool_buffer sc) (mStringPool sc) n j t \<noteq> Some t'"
      if "j \<le> i" for j t t'
      using that
    proof (induction "i - j" arbitrary: j t)
      case 0
      then have "j = i" by simp
      with \<open>i < n\<close> none readFuncTable_loop_step [of j n P tab "pool_buffer sc" "mStringPool sc" t t']
      show ?case by auto
    next
      case (Suc d)
      then have "j < i" by simp
      with \<open>i < n\<close> have "j < n" by simp
      show ?case
      proof
        assume "readFuncTable_loop P tab (pool_buffer sc) (mStringPool sc) n j t = Some t'"
        from readFuncTable_loop_step [OF \<open>j < n\<close> this]
        obtain nm where "readFuncTable_loop P tab (pool_buffer sc) (mStringPool sc) n (Suc j)
            (map_insert t nm (func_entry P tab j)) = Some t'" by blast
        moreover have "d = i - Suc j" using Suc.hyps(2) by simp
        moreover have "Suc j \<le> i" using \<open>j < i\<close> by simp
        ultimately show False using Suc.hyps(1) by blast
      qed
    qed
    with loop show False by blast
  qed
  have empty: "mFunctions sc k = None" for k by (simp add: assms(3))
  have first: "\<exists>nm j. ?name i = Some nm \<and> j \<le> i \<and> ?name j = Some nm \<and>
                 (\<forall>j'<j. ?name j' \<noteq> Some nm) \<and> tbl nm = Some (func_entry P tab j)"
    if i: "i < n" for i
  proof -
    from readable [OF i] obtain nm where nm: "?name i = Some nm" by blast
    from first_occurrence [OF nm] obtain j where j: "j \<le> i" "?name j = Some nm"
      "\<forall>j'<j. ?name j' \<noteq> Some nm" by blast
    have "tbl nm = Some (func_entry P tab j)"
    proof (rule readFuncTable_loop_first [OF loop empty])
      show "0 \<le> j" by simp
      show "j < n" using j(1) i by simp
      show "?name j = Some nm" by (rule j(2))
      show "\<forall>j'. 0 \<le> j' \<and> j' < j \<longrightarrow> ?name j' \<noteq> Some nm" using j(3) by simp
    qed
    with nm j show ?thesis by blast
  qed
  have absent: "tbl k = None" if "\<forall>i<n. ?name i \<noteq> Some k" for k
    using that by (intro readFuncTable_loop_absent [OF loop empty]) simp
  have "mpFuncTable r' = Some tab" "mpResult r' = Some (sc\<lparr>mFunctions := tbl\<rparr>)"
    "mFunctions (sc\<lparr>mFunctions := tbl\<rparr>) = tbl"
    using r' r1 by simp_all
  with n first absent show ?thesis by auto
qed

theorem readFuncTable_first_wins_witness:
  "\<exists>r' sc'.
     readFuncTable ilp32
       ((demo_reader (demo_file (demo_image (demo_header 101 192 28) (demo_depend_tab 0)
                                   twice_func_table)))
          \<lparr>mpHeader := Some (demo_header 101 192 28),
           mpResult := Some (new_ScriptCached
               \<lparr>mpStringPoolRaw := Some demo_str_pool, mStringPool := [20, 27]\<rparr>)\<rparr>) =
       Some (True, r') \<and>
     mpResult r' = Some sc' \<and>
     func_name ilp32 twice_func_table demo_str_pool [20, 27] 0 = Some [109, 97, 105, 110] \<and>
     func_name ilp32 twice_func_table demo_str_pool [20, 27] 1 = Some [109, 97, 105, 110] \<and>
     func_entry ilp32 twice_func_table 0 = (4096, 64) \<and>
     func_entry ilp32 twice_func_table 1 = (8192, 8) \<and>
     mFunctions sc' [109, 97, 105, 110] = Some (4096, 64)"
proof -
  let ?sc = "new_ScriptCached\<lparr>mpStringPoolRaw := Some demo_str_pool, mStringPool := [20, 27]\<rparr>"
  let ?R = "(demo_reader (demo_file (demo_image (demo_header 101 192 28) (demo_depend_tab 0)
                                   twice_func_table)))
          \<lparr>mpHeader := Some (demo_header 101 192 28), mpResult := Some ?sc\<rparr>"
  let ?main = "[109, 97, 105, 110] :: bytes"
  let ?name = "func_name ilp32 twice_func_table demo_str_pool [20, 27]"
  have "\<exists>r'. readFuncTable ilp32 ?R = Some (True, r') \<and> mpFuncTable r' = Some twice_func_table"
    by (simp add: readFuncTable_def CACHE_READER_READ_SECTION_def hold_func_table_def
        alloc_def emit_def FileHandle_seek_def FileHandle_read_def to_ssize_t_def
        pool_buffer_def vec_at_def c_str_def map_insert_def new_ScriptCached_def
        readFuncTable_loop.simps demo_defs twice_func_table_def ilp32_defs)
  then obtain r' where r': "readFuncTable ilp32 ?R = Some (True, r')"
    "mpFuncTable r' = Some twice_func_table" by blast
  have h: "mpResult ?R = Some ?sc" "mFunctions ?sc = Map.empty"
    by (simp_all add: new_ScriptCached_def)
  have buf: "pool_buffer ?sc = demo_str_pool" "mStringPool ?sc = [20, 27]"
    by (simp_all add: pool_buffer_def)
  have cnt: "as_count ilp32 twice_func_table = Some 2"
    by (simp add: ilp32_defs twice_func_table_def)
  have n0: "?name 0 = Some ?main" and n1: "?name 1 = Some ?main"
    by (simp_all add: func_name_def vec_at_def c_str_def ilp32_defs twice_func_table_def
        demo_str_pool_def)
  have e0: "func_entry ilp32 twice_func_table 0 = (4096, 64)"
    and e1: "func_entry ilp32 twice_func_table 1 = (8192, 8)"
    by (simp_all add: func_entry_def ilp32_defs twice_func_table_def)
  from readFuncTable_first_wins [OF r'(1) h] r'(2) cnt
  obtain sc' where sc': "mpResult r' = Some sc'"
    and all: "\<forall>i<2. \<exists>nm j. ?name i = Some nm \<and> j \<le> i \<and> ?name j = Some nm \<and>
                (\<forall>j'<j. ?name j' \<noteq> Some nm) \<and>
                mFunctions sc' nm = Some (func_entry ilp32 twice_func_table j)"
    by (auto simp: buf)
  from all have "\<exists>nm j. ?name 1 = Some nm \<and> j \<le> 1 \<and> ?name j = Some nm \<and>
                (\<forall>j'<j. ?name j' \<noteq> Some nm) \<and>
                mFunctions sc' nm = Some (func_entry ilp32 twice_func_table j)"
    by simp
  then obtain j where j: "j \<le> 1" "\<forall>j'<j. ?name j' \<noteq> Some ?main"
    "mFunctions sc' ?main = Some (func_entry ilp32 twice_func_table j)"
    using n1 by auto
  have "j = 0"
  proof (rule ccontr)
    assume "j \<noteq> 0"
    then have "0 < j" by simp
    with j(2) have "?name 0 \<noteq> Some ?main" by blast
    with n0 show False by simp
  qed
  with j(3) e0 have "mFunctions sc' ?main = Some (4096, 64)" by simp
  with r'(1) sc' n0 n1 e0 e1 show ?thesis by blast
qed

text \<open>
  Claim C2, as the code has it. The string-pool index of a record of the dependency
  table, the pragma list or the function table is used to index the pool vector as it
  is, with no validation. In the iteration that reaches record \<open>i\<close>: an index within
  the pool resolves to that pool entry (the name is the C string behind it; a pragma
  gets the two pointers); an index out of range for the pool is an out-of-bounds read
  of the vector, undefined behaviour, and not a return of false.
\<close>

theorem strp_index_unvalidated:
  "(i < n \<and> as_dependency P tab i = Some c \<longrightarrow>
      (res_name_strp_index c < length strPool \<longrightarrow>
         cached_name P tab raw strPool i = c_str raw (strPool ! res_name_strp_index c)) \<and>
      (\<not> res_name_strp_index c < length strPool \<longrightarrow>
         checkDependency_loop P tab raw strPool n i dep = None)) \<and>
   (i < n \<and> as_pragma P ptab i = Some pr \<longrightarrow>
      (key_strp_index pr < length strPool \<and> value_strp_index pr < length strPool \<longrightarrow>
         readPragmaList_loop P ptab strPool n i pragmas =
           readPragmaList_loop P ptab strPool n (Suc i)
             (pragmas @ [(strPool ! key_strp_index pr, strPool ! value_strp_index pr)])) \<and>
      (\<not> (key_strp_index pr < length strPool \<and> value_strp_index pr < length strPool) \<longrightarrow>
         readPragmaList_loop P ptab strPool n i pragmas = None)) \<and>
   (i < n \<and> as_func P ftab i = Some f \<longrightarrow>
      (name_strp_index f < length strPool \<longrightarrow>
         func_name P ftab raw strPool i = c_str raw (strPool ! name_strp_index f)) \<and>
      (\<not> name_strp_index f < length strPool \<longrightarrow>
         readFuncTable_loop P ftab raw strPool n i table = None))"
proof -
  have dep: "cached_name P tab raw strPool i = c_str raw (strPool ! res_name_strp_index c)"
    if "as_dependency P tab i = Some c" "res_name_strp_index c < length strPool"
    using that by (simp add: cached_name_def vec_at_def)
  have dep_out: "checkDependency_loop P tab raw strPool n i dep = None"
    if "i < n" "as_dependency P tab i = Some c" "\<not> res_name_strp_index c < length strPool"
    using that
    by (subst checkDependency_loop.simps) (simp add: vec_at_def split: list.splits prod.splits)
  have pragma: "readPragmaList_loop P ptab strPool n i pragmas =
           readPragmaList_loop P ptab strPool n (Suc i)
             (pragmas @ [(strPool ! key_strp_index pr, strPool ! value_strp_index pr)])"
    if "i < n" "as_pragma P ptab i = Some pr" "key_strp_index pr < length strPool"
      "value_strp_index pr < length strPool"
    using that by (subst readPragmaList_loop.simps) (simp add: vec_at_def)
  have pragma_out: "readPragmaList_loop P ptab strPool n i pragmas = None"
    if "i < n" "as_pragma P ptab i = Some pr"
      "\<not> (key_strp_index pr < length strPool \<and> value_strp_index pr < length strPool)"
    using that by (subst readPragmaList_loop.simps) (auto simp: vec_at_def)
  have func: "func_name P ftab raw strPool i = c_str raw (strPool ! name_strp_index f)"
    if "as_func P ftab i = Some f" "name_strp_index f < length strPool"
    using that by (simp add: func_name_def vec_at_def)
  have func_out: "readFuncTable_loop P ftab raw strPool n i table = None"
    if "i < n" "as_func P ftab i = Some f" "\<not> name_strp_index f < length strPool"
    using that by (subst readFuncTable_loop.simps) (simp add: vec_at_def)
  from dep dep_out pragma pragma_out func func_out show ?thesis by blast
qed

theorem strp_index_unvalidated_witness:
  "cached_name ilp32 (demo_depend_tab 0) demo_str_pool [20, 27] 0 = c_str demo_str_pool 20 \<and>
   checkDependency_loop ilp32 (demo_depend_tab 2) demo_str_pool [20, 27] 1 0
     [([102, 111, 111, 46, 114, 115], (1, demo_sha1))] = None \<and>
   readPragmaList_loop ilp32 (demo_pragma_list 1) [20, 27] 1 0 [] =
     readPragmaList_loop ilp32 (demo_pragma_list 1) [20, 27] 1 (Suc 0) [(20, 27)] \<and>
   readPragmaList_loop ilp32 (demo_pragma_list 2) [20, 27] 1 0 [] = None \<and>
   func_name ilp32 (demo_func_table_at 1) demo_str_pool [20, 27] 0 = c_str demo_str_pool 27 \<and>
   readFuncTable_loop ilp32 (demo_func_table_at 2) demo_str_pool [20, 27] 1 0 Map.empty = None"
proof -
  have d: "as_dependency ilp32 (demo_depend_tab x) 0 =
      Some \<lparr>res_name_strp_index = unat x, res_type = 1, sha1 = demo_sha1\<rparr>" for x
    by (simp add: ilp32_defs demo_depend_tab_def demo_sha1_def)
  have p: "as_pragma ilp32 (demo_pragma_list x) 0 =
      Some \<lparr>key_strp_index = 0, value_strp_index = unat x\<rparr>" for x
    by (simp add: ilp32_defs demo_pragma_list_def)
  have f: "as_func ilp32 (demo_func_table_at x) 0 =
      Some \<lparr>name_strp_index = unat x, cached_addr = 4096, func_size = 64\<rparr>" for x
    by (simp add: ilp32_defs demo_func_table_at_def)
  note inside = strp_index_unvalidated
    [where i = 0 and n = 1 and P = ilp32 and strPool = "[20, 27]" and raw = demo_str_pool
       and tab = "demo_depend_tab 0"
       and c = "\<lparr>res_name_strp_index = 0, res_type = 1, sha1 = demo_sha1\<rparr>"
       and ptab = "demo_pragma_list 1" and pr = "\<lparr>key_strp_index = 0, value_strp_index = 1\<rparr>"
       and pragmas = "[]" and ftab = "demo_func_table_at 1"
       and f = "\<lparr>name_strp_index = 1, cached_addr = 4096, func_size = 64\<rparr>"]
  note outside = strp_index_unvalidated
    [where i = 0 and n = 1 and P = ilp32 and strPool = "[20, 27]" and raw = demo_str_pool
       and tab = "demo_depend_tab 2"
       and c = "\<lparr>res_name_strp_index = 2, res_type = 1, sha1 = demo_sha1\<rparr>"
       and dep = "[([102, 111, 111, 46, 114, 115], (1, demo_sha1))]"
       and ptab = "demo_pragma_list 2" and pr = "\<lparr>key_strp_index = 0, value_strp_index = 2\<rparr>"
       and pragmas = "[]" and ftab = "demo_func_table_at 2"
       and f = "\<lparr>name_strp_index = 2, cached_addr = 4096, func_size = 64\<rparr>"
       and table = Map.empty]
  from inside d [of 0] p [of 1] f [of 1]
  have 1: "cached_name ilp32 (demo_depend_tab 0) demo_str_pool [20, 27] 0 = c_str demo_str_pool 20"
    and 2: "readPragmaList_loop ilp32 (demo_pragma_list 1) [20, 27] 1 0 [] =
              readPragmaList_loop ilp32 (demo_pragma_list 1) [20, 27] 1 (Suc 0) [(20, 27)]"
    and 3: "func_name ilp32 (demo_func_table_at 1) demo_str_pool [20, 27] 0 = c_str demo_str_pool 27"
    by simp_all
  from outside d [of 2] p [of 2] f [of 2]
  have 4: "checkDependency_loop ilp32 (demo_depend_tab 2) demo_str_pool [20, 27] 1 0
             [([102, 111, 111, 46, 114, 115], (1, demo_sha1))] = None"
    and 5: "readPragmaList_loop ilp32 (demo_pragma_list 2) [20, 27] 1 0 [] = None"
    and 6: "readFuncTable_loop ilp32 (demo_func_table_at 2) demo_str_pool [20, 27] 1 0 Map.empty = None"
    by simp_all
  from 1 2 3 4 5 6 show ?thesis by blast
qed

text \<open>
  The file of the example whose dependency record names pool entry 2, where the pool
  has the entries 0 and 1: opening it does not return null, it runs into the
  out-of-bounds read.
\<close>

theorem strp_index_unvalidated_counterexample:
  "readCacheFile ilp32
     (demo_reader (demo_file (demo_image (demo_header 101 192 16) (demo_depend_tab 2)
                                demo_func_table)))
     (Some (demo_file (demo_image (demo_header 101 192 16) (demo_depend_tab 2)
                         demo_func_table))) = None"
  by (simp add: readCacheFile_def step_defs demo_defs ilp32_defs)

text \<open>
  Claim C8. \<open>readCacheFile\<close> tests its argument \<open>file\<close> and then never uses it: no
  statement assigns it to the member \<open>mFile\<close>, on which \<open>checkFileSize\<close> and every read
  work. So the size of the file that is passed in does not decide the outcome. On the
  example platform, with a file of three bytes (shorter than the header of 84 bytes and
  than the context of 16) as the argument: a reader whose \<open>mFile\<close> is the good example
  file returns a result object, its function \<open>main\<close> included; a reader whose \<open>mFile\<close>
  is null dereferences it in \<open>checkFileSize\<close>.
\<close>

theorem readCacheFile_ignores_file_argument:
  "length (contents (demo_file [1, 2, 3])) < sizeof_OBCC_Header ilp32 \<and>
   length (contents (demo_file [1, 2, 3])) < BCC_CONTEXT_SIZE ilp32 \<and>
   map_option (\<lambda>(a, r'). map_option (\<lambda>sc. mFunctions sc [109, 97, 105, 110]) a)
     (readCacheFile ilp32 (demo_reader (demo_file good_image)) (Some (demo_file [1, 2, 3]))) =
     Some (Some (Some (4096, 64))) \<and>
   readCacheFile ilp32 ((demo_reader (demo_file good_image))\<lparr>mFile := None\<rparr>)
     (Some (demo_file [1, 2, 3])) = None"
proof -
  have 1: "length (contents (demo_file [1, 2, 3])) < sizeof_OBCC_Header ilp32"
    "length (contents (demo_file [1, 2, 3])) < BCC_CONTEXT_SIZE ilp32"
    by (simp_all add: demo_file_def ilp32_def)
  have 2: "map_option (\<lambda>(a, r'). map_option (\<lambda>sc. mFunctions sc [109, 97, 105, 110]) a)
     (readCacheFile ilp32 (demo_reader (demo_file good_image)) (Some (demo_file [1, 2, 3]))) =
     Some (Some (Some (4096, 64)))"
    by (simp add: readCacheFile_def step_defs demo_defs ilp32_defs)
  have 3: "readCacheFile ilp32 ((demo_reader (demo_file good_image))\<lparr>mFile := None\<rparr>)
     (Some (demo_file [1, 2, 3])) = None"
    by (simp add: readCacheFile_def and_also_def checkFileSize_def alloc_def emit_def
        demo_reader_def demo_file_def)
  from 1 2 3 show ?thesis by blast
qed

end
